theory Spec2Isabelle
  imports Main
begin

section \<open>Strings of the host language\<close>

text \<open>
  A JavaScript string is modelled as a \<^typ>\<open>string\<close>: a list of code units, each below
  256 (the Latin-1 range). Within that range the white space of \<open>trim\<close> and of the
  regular expression class \<open>\s\<close> is TAB, LF, VT, FF, CR, SPACE and NBSP.
\<close>

definition ws :: "char \<Rightarrow> bool" where
  "ws c = (of_char c \<in> {9, 10, 11, 12, 13, 32, 160 :: nat})"

definition trim :: "string \<Rightarrow> string" where
  "trim s = rev (dropWhile ws (rev (dropWhile ws s)))"

text \<open>\<open>s.split(c)\<close> for a one-character separator: never the empty array.\<close>

fun split_on :: "char \<Rightarrow> string \<Rightarrow> string list" where
  "split_on c [] = [[]]"
| "split_on c (x # xs) =
     (if x = c then [] # split_on c xs
      else (case split_on c xs of [] \<Rightarrow> [[x]] | y # ys \<Rightarrow> (x # y) # ys))"

text \<open>\<open>s.split(/\s+/)\<close>: the pieces between maximal runs of white space.\<close>

function split_ws :: "string \<Rightarrow> string list" where
  "split_ws [] = [[]]"
| "split_ws (x # xs) =
     (if ws x then [] # split_ws (dropWhile ws xs)
      else (case split_ws xs of [] \<Rightarrow> [[x]] | y # ys \<Rightarrow> (x # y) # ys))"
  by pat_completeness auto
termination
  by (relation "measure length") (auto simp: length_dropWhile_le less_Suc_eq_le)

text \<open>\<open>parts.join(sep)\<close>.\<close>

fun join_with :: "string \<Rightarrow> string list \<Rightarrow> string" where
  "join_with sep [] = []"
| "join_with sep [x] = x"
| "join_with sep (x # y # ys) = x @ sep @ join_with sep (y # ys)"

fun startsWith :: "string \<Rightarrow> string \<Rightarrow> bool" where
  "startsWith s [] = True"
| "startsWith [] (p # ps) = False"
| "startsWith (c # cs) (p # ps) = (c = p \<and> startsWith cs ps)"

definition endsWith :: "string \<Rightarrow> string \<Rightarrow> bool" where
  "endsWith s p = startsWith (rev s) (rev p)"

text \<open>\<open>s.includes(sub)\<close>: \<open>sub\<close> occurs in \<open>s\<close> as a contiguous substring.\<close>

fun str_includes :: "string \<Rightarrow> string \<Rightarrow> bool" where
  "str_includes [] sub = (sub = [])"
| "str_includes (c # cs) sub = (startsWith (c # cs) sub \<or> str_includes cs sub)"

text \<open>\<open>s.toLowerCase()\<close> on Latin-1 code units: A-Z and the accented capitals move up by 32.\<close>

definition lower_char :: "char \<Rightarrow> char" where
  "lower_char c =
     (let n = (of_char c :: nat)
      in if (65 \<le> n \<and> n \<le> 90) \<or> (192 \<le> n \<and> n \<le> 214) \<or> (216 \<le> n \<and> n \<le> 222)
         then char_of (n + 32) else c)"

definition toLowerCase :: "string \<Rightarrow> string" where
  "toLowerCase s = map lower_char s"

section \<open>The path module (POSIX flavour)\<close>

text \<open>
  The functions of \<open>node:path\<close> that the crawler calls, in their POSIX form, on the
  segments between slashes.
\<close>

definition slash :: char where
  "slash = CHR ''/''"

definition dot :: char where
  "dot = CHR ''.''"

text \<open>\<open>path.basename(p)\<close>: the last component, trailing slashes ignored.\<close>

definition basename :: "string \<Rightarrow> string" where
  "basename p = rev (takeWhile (\<lambda>c. c \<noteq> slash) (dropWhile (\<lambda>c. c = slash) (rev p)))"

text \<open>
  \<open>path.extname(p)\<close>: from the last dot of the last component to its end; empty when
  there is no dot, when the last dot is the component's first character, and for the
  component \<open>..\<close>.
\<close>

definition extname :: "string \<Rightarrow> string" where
  "extname p =
     (let b = basename p;
          suffix = rev (takeWhile (\<lambda>c. c \<noteq> dot) (rev b));
          pre = rev (drop 1 (dropWhile (\<lambda>c. c \<noteq> dot) (rev b)))
      in if dot \<notin> set b then []
         else if pre = [] then []
         else if b = [dot, dot] then []
         else dot # suffix)"

text \<open>
  One step of the segment normaliser: empty and \<open>.\<close> segments vanish, \<open>..\<close> removes the
  segment before it when there is one that is not itself \<open>..\<close>, and otherwise stays only
  in a relative path.
\<close>

definition norm_step :: "bool \<Rightarrow> string list \<Rightarrow> string \<Rightarrow> string list" where
  "norm_step allowAboveRoot res seg =
     (if seg = [] \<or> seg = [dot] then res
      else if seg = [dot, dot] then
        (if res \<noteq> [] \<and> last res \<noteq> [dot, dot] then butlast res
         else if allowAboveRoot then res @ [seg] else res)
      else res @ [seg])"

definition normalizeString :: "string \<Rightarrow> bool \<Rightarrow> string list" where
  "normalizeString p allowAboveRoot = foldl (norm_step allowAboveRoot) [] (split_on slash p)"

definition normalize :: "string \<Rightarrow> string" where
  "normalize p =
     (if p = [] then [dot]
      else
        let isAbsolute = (hd p = slash);
            trailingSeparator = (last p = slash);
            q = join_with [slash] (normalizeString p (\<not> isAbsolute))
        in if q = [] then
             (if isAbsolute then [slash] else if trailingSeparator then [dot, slash] else [dot])
           else (if isAbsolute then [slash] else []) @ q @ (if trailingSeparator then [slash] else []))"

text \<open>\<open>path.join(...args)\<close>: the non-empty arguments joined by a slash, then normalised.\<close>

definition path_join :: "string list \<Rightarrow> string" where
  "path_join args =
     (let joined = join_with [slash] (filter (\<lambda>a. a \<noteq> []) args)
      in if joined = [] then [dot] else normalize joined)"

text \<open>
  \<open>path.resolve(p)\<close> with the working directory \<open>cwd\<close> (an absolute path): the absolute,
  normalised segments of \<open>p\<close>.
\<close>

definition resolve_segs :: "string \<Rightarrow> string \<Rightarrow> string list" where
  "resolve_segs cwd p =
     normalizeString (if p \<noteq> [] \<and> hd p = slash then p else cwd @ [slash] @ p) False"

fun drop_common :: "string list \<Rightarrow> string list \<Rightarrow> string list \<times> string list" where
  "drop_common (x # xs) (y # ys) = (if x = y then drop_common xs ys else (x # xs, y # ys))"
| "drop_common xs ys = (xs, ys)"

text \<open>
  \<open>path.relative(from, to)\<close>: one \<open>..\<close> for every segment of \<open>from\<close> below the common
  ancestor, then the segments of \<open>to\<close> below it.
\<close>

definition path_relative :: "string \<Rightarrow> string \<Rightarrow> string \<Rightarrow> string" where
  "path_relative cwd from to =
     (if from = to then []
      else case drop_common (resolve_segs cwd from) (resolve_segs cwd to) of
        (f, t) \<Rightarrow> join_with [slash] (map (\<lambda>_. [dot, dot]) f @ t))"

text \<open>
  \<open>path.dirname(p)\<close>: what stands before the last component, trailing slashes ignored;
  \<open>/\<close> or \<open>.\<close> when nothing does.
\<close>

definition path_dirname :: "string \<Rightarrow> string" where
  "path_dirname p =
     (if p = [] then [dot]
      else
        let hasRoot = (hd p = slash);
            before = dropWhile (\<lambda>c. c \<noteq> slash) (dropWhile (\<lambda>c. c = slash) (rev (tl p)))
        in if before = [] then (if hasRoot then [slash] else [dot])
           else if hasRoot \<and> length before = 1 then [slash, slash]
           else take (length before) p)"

section \<open>Utilities of the crawler\<close>

definition OUTPUT_BASE :: string where
  "OUTPUT_BASE = ''downloaded''"

definition ensureTrailingSlash :: "string \<Rightarrow> string" where
  "ensureTrailingSlash p = (if endsWith p ''/'' then p else p @ ''/'')"

text \<open>The characters that \<open>sanitizeFilename\<close> replaces: \<open><>:"/\|?*\<close> and the controls below 32.\<close>

definition hostile :: "char \<Rightarrow> bool" where
  "hostile c =
     (c \<in> set [CHR ''<'', CHR ''>'', CHR '':'', CHR 0x22, CHR ''/'', CHR 0x5C, CHR ''|'',
               CHR ''?'', CHR ''*'']
      \<or> (of_char c :: nat) < 32)"

definition underscore :: char where
  "underscore = CHR ''_''"

definition sanitizeFilename :: "string \<Rightarrow> string" where
  "sanitizeFilename name =
     (let s = take 200 (map (\<lambda>c. if hostile c then underscore else c) name)
      in if s = [] then ''file'' else s)"

section \<open>The platform\<close>

text \<open>
  What the crawler takes from its runtime and its libraries is a parameter of the model.
  A parsed URL carries the four members the crawler reads; \<open>new URL(input, base)\<close> is a
  function that returns \<open>None\<close> where the constructor throws. A \<open>Uint8Array\<close> is a list of
  bytes, and a byte is a \<^typ>\<open>char\<close>.
\<close>

type_synonym bytes = "char list"

record url =
  href :: string
  origin :: string
  hostname :: string
  pathname :: string

text \<open>
  What the crawler can throw: a \<open>TypeError\<close> (of the URL constructor, or of a member read
  on \<open>undefined\<close>), the error of \<open>fetchWithType\<close> for a status that is not \<open>ok\<close>, a failure
  of the transport, and an error of the file system with its code and path.
\<close>

datatype error =
    TypeError string
  | HttpError nat string
  | NetworkError string
  | FsError string string

record response =
  buf :: bytes
  contentType :: string

text \<open>
  What one request of the global \<open>fetch\<close> yields: a transport failure, or a status
  code with the content-type header (when there is one) and the body.
\<close>

datatype http_result =
    Failed string
  | Http nat "string option" bytes

text \<open>
  A node of the file system: a directory, or a file with what was written to it, bytes
  or a text.
\<close>

datatype content = Bytes bytes | Text string

datatype node = Directory | File content

record element =
  tag :: string
  attrs :: "(string \<times> string) list"

type_synonym document = "element list"

text \<open>
  \<^item> \<open>new_URL input base\<close>: the URL constructor, with or without a base;
  \<^item> \<open>net_fetch n u\<close>: the outcome of requesting \<open>u\<close> when \<open>n\<close> requests were made before;
  \<^item> \<open>decode\<close>: \<open>new TextDecoder().decode\<close>, from the bytes of a body to its text;
  \<^item> \<open>cheerio_load\<close>, \<open>cheerio_html\<close>: the markup parser and serialiser; a document is
    the list of its elements in document order;
  \<^item> \<open>files\<close>: the nodes of the file system when the run starts, by their paths;
  \<^item> \<open>denied\<close>: the paths at which the file system refuses to make or write a node;
  \<^item> \<open>dirname\<close>: the directory of the script; \<open>cwd\<close>: the working directory.
\<close>

record platform =
  new_URL :: "string \<Rightarrow> string option \<Rightarrow> url option"
  net_fetch :: "nat \<Rightarrow> string \<Rightarrow> http_result"
  decode :: "bytes \<Rightarrow> string"
  cheerio_load :: "string \<Rightarrow> document"
  cheerio_html :: "document \<Rightarrow> string"
  files :: "string \<rightharpoonup> node"
  denied :: "string \<Rightarrow> bool"
  dirname :: string
  cwd :: string

section \<open>Files\<close>

text \<open>
  The directories that \<open>fs.mkdir(p, {recursive: true})\<close> goes through, from the outermost
  to \<open>p\<close> itself, for a normalised path \<open>p\<close>.
\<close>

definition ancestors :: "string \<Rightarrow> string list" where
  "ancestors p =
     (let root = (if p \<noteq> [] \<and> hd p = slash then [slash] else []);
          segs = filter (\<lambda>s. s \<noteq> []) (split_on slash p)
      in map (\<lambda>k. root @ join_with [slash] (take k segs)) [1 ..< Suc (length segs)])"

text \<open>
  \<open>fs.mkdir(p, {recursive: true})\<close>: a directory that exists is left as it is, one that is
  missing is made, and a file in the way is an error: \<open>ENOTDIR\<close> on the way to \<open>p\<close>,
  \<open>EEXIST\<close> at \<open>p\<close> itself.
\<close>

fun mkdir_each :: "platform \<Rightarrow> (string \<rightharpoonup> node) \<Rightarrow> string \<Rightarrow> string list \<Rightarrow> error + (string \<rightharpoonup> node)" where
  "mkdir_each P fs p [] = Inr fs"
| "mkdir_each P fs p (a # rest) =
     (case fs a of
        Some (File _) \<Rightarrow> Inl (FsError (if rest = [] then ''EEXIST'' else ''ENOTDIR'') p)
      | Some Directory \<Rightarrow> mkdir_each P fs p rest
      | None \<Rightarrow>
          if denied P a then Inl (FsError ''EACCES'' p)
          else mkdir_each P (fs(a \<mapsto> Directory)) p rest)"

definition mkdir :: "platform \<Rightarrow> (string \<rightharpoonup> node) \<Rightarrow> string \<Rightarrow> error + (string \<rightharpoonup> node)" where
  "mkdir P fs p = mkdir_each P fs p (ancestors p)"

text \<open>
  \<open>fs.writeFile(p, data)\<close> in a directory that exists: a directory at \<open>p\<close> is the error
  \<open>EISDIR\<close>, a file at \<open>p\<close> is replaced.
\<close>

definition writeFile :: "platform \<Rightarrow> (string \<rightharpoonup> node) \<Rightarrow> string \<Rightarrow> content \<Rightarrow> error + (string \<rightharpoonup> node)" where
  "writeFile P fs p data =
     (case fs p of
        Some Directory \<Rightarrow> Inl (FsError ''EISDIR'' p)
      | _ \<Rightarrow> if denied P p then Inl (FsError ''EACCES'' p) else Inr (fs(p \<mapsto> File data)))"

definition saveFile :: "platform \<Rightarrow> (string \<rightharpoonup> node) \<Rightarrow> string \<Rightarrow> content \<Rightarrow> error + (string \<rightharpoonup> node)" where
  "saveFile P fs filePath data =
     (case mkdir P fs (path_dirname filePath) of
        Inl e \<Rightarrow> Inl e
      | Inr fs' \<Rightarrow> writeFile P fs' filePath data)"

section \<open>Path Mapper\<close>

definition extFromUrlOrType :: "platform \<Rightarrow> string \<Rightarrow> string \<Rightarrow> error + string" where
  "extFromUrlOrType P u ct =
     (case new_URL P u None of
        None \<Rightarrow> Inl (TypeError u)
      | Some urlObj \<Rightarrow>
          (let ext = toLowerCase (extname (pathname urlObj))
           in if ext \<noteq> [] then Inr ext
              else if ct = [] then Inr []
              else if str_includes ct ''text/html'' then Inr ''.html''
              else if str_includes ct ''text/css'' then Inr ''.css''
              else if str_includes ct ''javascript'' then Inr ''.js''
              else if str_includes ct ''image/'' then
                (case split_on slash ct of
                   _ # part # _ \<Rightarrow>
                     (let sub = (case split_on CHR '';'' part of [] \<Rightarrow> [] | s # _ \<Rightarrow> s)
                      in Inr (''.'' @ (if sub = ''jpeg'' then ''jpg'' else sub)))
                 | _ \<Rightarrow> Inl (TypeError ct))
              else if str_includes ct ''font/'' then Inr ''.woff2''
              else Inr []))"

definition chooseSubdirByExt :: "string \<Rightarrow> string" where
  "chooseSubdirByExt ext =
     (if ext = ''.css'' then ''css''
      else if ext = ''.js'' then ''js''
      else if ext \<in> set [''.png'', ''.jpg'', ''.jpeg'', ''.gif'', ''.webp'', ''.svg'', ''.avif'']
        then ''img''
      else if ext \<in> set [''.woff'', ''.woff2'', ''.ttf'', ''.otf'', ''.eot''] then ''fonts''
      else if ext = ''.html'' \<or> ext = [] then []
      else ''assets'')"

definition localPathFor :: "platform \<Rightarrow> string \<Rightarrow> string \<Rightarrow> string \<Rightarrow> error + string" where
  "localPathFor P originHost targetUrl ct =
     (case new_URL P targetUrl None of
        None \<Rightarrow> Inl (TypeError targetUrl)
      | Some urlObj \<Rightarrow>
          (case extFromUrlOrType P targetUrl ct of
             Inl e \<Rightarrow> Inl e
           | Inr ext \<Rightarrow>
               (let subdir = chooseSubdirByExt ext;
                    b = basename (pathname urlObj);
                    nameGuess = sanitizeFilename (if b = [] then ''index'' else b)
                      @ (if ext \<noteq> [] \<and> extname (pathname urlObj) = [] then ext else []);
                    dir = (if subdir \<noteq> [] then path_join [originHost, subdir] else originHost)
                in Inr (path_join [dir,
                     if nameGuess \<noteq> [] then nameGuess
                     else ''index'' @ (if ext \<noteq> [] then ext else ''.html'')]))))"

section \<open>Reference Extractor\<close>

text \<open>\<open>set.add(x)\<close> on a set that iterates in insertion order.\<close>

definition set_add :: "string list \<Rightarrow> string \<Rightarrow> string list" where
  "set_add xs x = (if x \<in> set xs then xs else xs @ [x])"

definition new_Set :: "string list \<Rightarrow> string list" where
  "new_Set xs = foldl set_add [] xs"

definition resolve_all :: "platform \<Rightarrow> string \<Rightarrow> string list \<Rightarrow> string list" where
  "resolve_all P baseUrl ms =
     concat (map (\<lambda>m. case new_URL P m (Some baseUrl) of None \<Rightarrow> [] | Some u \<Rightarrow> [href u]) ms)"

subsection \<open>The two patterns\<close>

text \<open>
  The patterns are \<open>/url\(\s*(['"]?)([^'")]+)\1\s*\)/gi\<close> and
  \<open>/@import\s+(?:url\()?\s*(['"]?)([^'")]+)\1\s*\)?/gi\<close>. A match is searched the way the
  regular expression engine does: every quantifier is greedy, and when the rest of the pattern
  fails the last choice made is revised first. \<open>first_of f xs\<close> is the result of the first
  alternative of \<open>xs\<close>, listed in the order of preference, on which \<open>f\<close> succeeds.
\<close>

fun first_of :: "('a \<Rightarrow> 'b option) \<Rightarrow> 'a list \<Rightarrow> 'b option" where
  "first_of f [] = None"
| "first_of f (x # xs) = (case f x of Some y \<Rightarrow> Some y | None \<Rightarrow> first_of f xs)"

text \<open>
  The numbers of characters that \<open>c*\<close> (\<open>lo = 0\<close>) or \<open>c+\<close> (\<open>lo = 1\<close>) may take at the
  start of \<open>s\<close>, the longest first.
\<close>

definition greedy :: "(char \<Rightarrow> bool) \<Rightarrow> nat \<Rightarrow> string \<Rightarrow> nat list" where
  "greedy cls lo s = rev [lo ..< Suc (length (takeWhile cls s))]"

text \<open>
  The alternatives of \<open>(m)?\<close> at the start of \<open>s\<close>: what follows \<open>m\<close> when it matches, then
  \<open>s\<close> itself.
\<close>

definition optional :: "(string \<Rightarrow> string option) \<Rightarrow> string \<Rightarrow> string list" where
  "optional m s = (case m s of Some r \<Rightarrow> [r] | None \<Rightarrow> []) @ [s]"

text \<open>
  A literal of lower-case letters and signs under the flag \<open>i\<close>: the text that follows it.
\<close>

fun literal :: "string \<Rightarrow> string \<Rightarrow> string option" where
  "literal [] s = Some s"
| "literal (p # ps) [] = None"
| "literal (p # ps) (c # cs) = (if lower_char c = p then literal ps cs else None)"

definition paren :: "string \<Rightarrow> string option" where
  "paren s = (case s of c # cs \<Rightarrow> if c = CHR '')'' then Some cs else None | [] \<Rightarrow> None)"

definition quote :: "char \<Rightarrow> bool" where
  "quote c = (c = CHR 0x27 \<or> c = CHR 0x22)"

definition unquoted :: "char \<Rightarrow> bool" where
  "unquoted c = (\<not> quote c \<and> c \<noteq> CHR '')'')"

text \<open>The alternatives of \<open>(['"]?)\<close>: the first capture group.\<close>

definition open_quote :: "string \<Rightarrow> string list" where
  "open_quote s = (case s of c # _ \<Rightarrow> if quote c then [[c], []] else [[]] | [] \<Rightarrow> [[]])"

text \<open>
  \<open>\s*(['"]?)([^'")]+)\1\<close> followed by \<open>closing\<close>: the second capture group and the text
  after the match.
\<close>

definition capture :: "(string \<Rightarrow> string option) \<Rightarrow> string \<Rightarrow> (string \<times> string) option" where
  "capture closing s =
     first_of (\<lambda>k.
       let s1 = drop k s in
       first_of (\<lambda>q.
         let s2 = drop (length q) s1 in
         first_of (\<lambda>n.
           let s3 = drop n s2 in
           if startsWith s3 q then map_option (Pair (take n s2)) (closing (drop (length q) s3))
           else None)
         (greedy unquoted 1 s2))
       (open_quote s1))
     (greedy ws 0 s)"

text \<open>\<open>\s*\)\<close> and \<open>\s*\)?\<close>, which end the two patterns.\<close>

definition close_url :: "string \<Rightarrow> string option" where
  "close_url s = first_of (\<lambda>k. paren (drop k s)) (greedy ws 0 s)"

definition close_import :: "string \<Rightarrow> string option" where
  "close_import s = first_of (\<lambda>k. first_of Some (optional paren (drop k s))) (greedy ws 0 s)"

datatype regex = urlRegex | importRegex

text \<open>A match that starts at the first character of \<open>s\<close>.\<close>

fun exec_at :: "regex \<Rightarrow> string \<Rightarrow> (string \<times> string) option" where
  "exec_at urlRegex s =
     (case literal ''url('' s of
        None \<Rightarrow> None
      | Some s1 \<Rightarrow> capture close_url s1)"
| "exec_at importRegex s =
     (case literal ''@import'' s of
        None \<Rightarrow> None
      | Some s1 \<Rightarrow>
          first_of (\<lambda>k. first_of (capture close_import) (optional (literal ''url('') (drop k s1)))
            (greedy ws 1 s1))"

text \<open>
  \<open>while ((m = re.exec(text)))\<close>: the second capture group of the successive matches, each
  searched from the end of the match before. A match takes at least the literal that opens
  the pattern, so the search moves on.
\<close>

function exec_all :: "regex \<Rightarrow> string \<Rightarrow> string list" where
  "exec_all re s =
     (case exec_at re s of
        Some (m2, rest) \<Rightarrow> m2 # exec_all re rest
      | None \<Rightarrow> (case s of [] \<Rightarrow> [] | _ # t \<Rightarrow> exec_all re t))"
  by pat_completeness auto
termination
proof (relation "measure (\<lambda>(re, s). length s)")
  have alt: "\<exists>x \<in> set xs. f x = Some y" if "first_of f xs = Some y"
    for f :: "'a \<Rightarrow> 'b option" and xs y
    using that by (induction xs) (auto split: option.splits)
  have lit: "length r + length p = length s" if "literal p s = Some r" for p s r
    using that by (induction p s rule: literal.induct) (auto split: if_splits)
  have par: "length r \<le> length s" if "paren s = Some r" for s r
    using that by (auto simp: paren_def split: list.splits if_splits)
  have opt: "length r \<le> length s"
    if "r \<in> set (optional m s)" and "\<And>t. m s = Some t \<Longrightarrow> length t \<le> length s" for m s r
    using that by (auto simp: optional_def split: option.splits)
  have cu: "length r \<le> length s" if "close_url s = Some r" for s r
    using that by (auto simp: close_url_def dest!: alt par)
  have ci: "length r \<le> length s" if "close_import s = Some r" for s r
  proof -
    from that obtain k where "r \<in> set (optional paren (drop k s))"
      by (auto simp: close_import_def dest!: alt)
    then have "length r \<le> length (drop k s)"
      by (rule opt) (rule par)
    then show ?thesis by simp
  qed
  have cap: "length r \<le> length s"
    if "capture closing s = Some (g, r)"
      and c: "\<And>t r. closing t = Some r \<Longrightarrow> length r \<le> length t" for closing s g r
    using that(1) unfolding capture_def Let_def
    by (auto dest!: alt c split: if_splits)
  have shorter: "length r < length s" if e: "exec_at re s = Some (g, r)" for re s g r
  proof (cases re)
    case urlRegex
    with e obtain s1 where 1: "literal ''url('' s = Some s1"
      and 2: "capture close_url s1 = Some (g, r)"
      by (auto split: option.splits)
    have "length r \<le> length s1"
      by (rule cap[OF 2]) (rule cu)
    with lit[OF 1] show ?thesis by simp
  next
    case importRegex
    with e obtain s1 where 1: "literal ''@import'' s = Some s1"
      and 2: "first_of (\<lambda>k. first_of (capture close_import)
                 (optional (literal ''url('') (drop k s1))) (greedy ws 1 s1) = Some (g, r)"
      by (auto split: option.splits)
    from alt[OF 2] obtain k where
      "first_of (capture close_import) (optional (literal ''url('') (drop k s1)) = Some (g, r)"
      by auto
    from alt[OF this] obtain s3 where 3: "s3 \<in> set (optional (literal ''url('') (drop k s1))"
      and 4: "capture close_import s3 = Some (g, r)"
      by auto
    have "length s3 \<le> length (drop k s1)"
      using 3 by (rule opt) (auto dest: lit)
    moreover have "length r \<le> length s3"
      by (rule cap[OF 4]) (rule ci)
    ultimately show ?thesis using lit[OF 1] by simp
  qed
  show "wf (measure (\<lambda>(re, s). length s))" by simp
  show "((re, rest), (re, s)) \<in> measure (\<lambda>(re, s). length s)"
    if "exec_at re s = Some x" and "(m2, rest) = x" for re s x m2 rest
    using shorter[of re s m2 rest] that by simp
  show "((re, t), (re, s)) \<in> measure (\<lambda>(re, s). length s)"
    if "exec_at re s = None" and "s = c # t" for re s c t
    using that by simp
qed

declare exec_all.simps [simp del]

subsection \<open>Style sheets\<close>

definition extractUrlsFromCss :: "platform \<Rightarrow> string \<Rightarrow> string \<Rightarrow> string list" where
  "extractUrlsFromCss P cssText baseUrl =
     new_Set (resolve_all P baseUrl (exec_all urlRegex cssText)
              @ resolve_all P baseUrl (exec_all importRegex cssText))"

subsection \<open>Markup\<close>

text \<open>
  The selectors of the crawler: \<open>tag[attr=value]\<close>, \<open>tag[attr~=value]\<close> and \<open>tag[attr]\<close>.
  In a markup document the value of \<open>rel\<close> is compared without regard to case.
\<close>

datatype selector =
    AttrIs string string string
  | AttrHasWord string string string
  | AttrPresent string string

fun matches :: "selector \<Rightarrow> element \<Rightarrow> bool" where
  "matches (AttrIs t a v) el =
     (tag el = t \<and> (case map_of (attrs el) a of None \<Rightarrow> False
                      | Some x \<Rightarrow> toLowerCase x = toLowerCase v))"
| "matches (AttrHasWord t a v) el =
     (tag el = t \<and> (case map_of (attrs el) a of None \<Rightarrow> False
                      | Some x \<Rightarrow> toLowerCase v \<in> set (split_ws (toLowerCase x))))"
| "matches (AttrPresent t a) el = (tag el = t \<and> map_of (attrs el) a \<noteq> None)"

definition assetAttrs :: "(selector \<times> string) list" where
  "assetAttrs =
     [(AttrIs ''link'' ''rel'' ''stylesheet'', ''href''),
      (AttrHasWord ''link'' ''rel'' ''icon'', ''href''),
      (AttrPresent ''script'' ''src'', ''src''),
      (AttrPresent ''img'' ''src'', ''src''),
      (AttrPresent ''source'' ''src'', ''src''),
      (AttrPresent ''video'' ''src'', ''src''),
      (AttrPresent ''audio'' ''src'', ''src''),
      (AttrPresent ''img'' ''srcset'', ''srcset'')]"

text \<open>The entries of a \<open>srcset\<close> value: split at commas, trimmed, the empty ones dropped.\<close>

definition srcset_pieces :: "string \<Rightarrow> string list" where
  "srcset_pieces val = filter (\<lambda>s. s \<noteq> []) (map trim (split_on CHR '','' val))"

definition first_word :: "string \<Rightarrow> string" where
  "first_word entry = (case split_ws entry of [] \<Rightarrow> [] | w # _ \<Rightarrow> w)"

definition collect_el :: "platform \<Rightarrow> string \<Rightarrow> bool \<Rightarrow> string \<Rightarrow> string \<Rightarrow> element \<Rightarrow> string list" where
  "collect_el P baseUrl sameOriginOnly orig attr el =
     (case map_of (attrs el) attr of
        None \<Rightarrow> []
      | Some val \<Rightarrow>
          if val = [] then []
          else if attr = ''srcset'' then
            concat (map (\<lambda>h. case new_URL P h (Some baseUrl) of
                                None \<Rightarrow> []
                              | Some u \<Rightarrow> if sameOriginOnly \<and> origin u \<noteq> orig then [] else [href u])
                        (map first_word (srcset_pieces val)))
          else (case new_URL P val (Some baseUrl) of
                  None \<Rightarrow> []
                | Some u \<Rightarrow> if sameOriginOnly \<and> origin u \<noteq> orig then [] else [href u]))"

definition collectAndRewriteHtml :: "platform \<Rightarrow> document \<Rightarrow> string \<Rightarrow> bool \<Rightarrow> string \<Rightarrow> string list" where
  "collectAndRewriteHtml P doc baseUrl sameOriginOnly orig =
     concat (map (\<lambda>(selector, attr).
                    concat (map (collect_el P baseUrl sameOriginOnly orig attr)
                                (filter (matches selector) doc)))
                 assetAttrs)"

section \<open>Fetch Worker Pool\<close>

definition fetchWithType :: "platform \<Rightarrow> nat \<Rightarrow> string \<Rightarrow> error + response" where
  "fetchWithType P n u =
     (case net_fetch P n u of
        Failed msg \<Rightarrow> Inl (NetworkError msg)
      | Http status ct body \<Rightarrow>
          if 200 \<le> status \<and> status \<le> 299
          then Inr \<lparr>buf = body, contentType = (case ct of None \<Rightarrow> [] | Some c \<Rightarrow> c)\<rparr>
          else Inl (HttpError status u))"

text \<open>
  The state of one run: the set of URLs to download (in insertion order), the map from
  URL to local path, the nodes of the file system, the URLs handed to \<open>fetch\<close> in the
  order of the calls, and the URLs warned about.
\<close>

record crawl =
  toDownload :: "string list"
  urlToLocalPath :: "string \<rightharpoonup> string"
  disk :: "string \<rightharpoonup> node"
  requests :: "string list"
  warnings :: "string list"

definition replace_backslash :: "string \<Rightarrow> string" where
  "replace_backslash s = map (\<lambda>c. if c = CHR 0x5C then slash else c) s"

definition same_origin_urls :: "platform \<Rightarrow> string \<Rightarrow> string list \<Rightarrow> string list" where
  "same_origin_urls P orig us =
     filter (\<lambda>nu. case new_URL P nu None of None \<Rightarrow> False | Some parsed \<Rightarrow> origin parsed = orig) us"

definition downloadOne :: "platform \<Rightarrow> string \<Rightarrow> string \<Rightarrow> crawl \<Rightarrow> string \<Rightarrow> error + crawl" where
  "downloadOne P orig hostName s u =
     (if urlToLocalPath s u \<noteq> None then Inr s
      else
        let s1 = s\<lparr>requests := requests s @ [u]\<rparr>
        in case fetchWithType P (length (requests s)) u of
             Inl e \<Rightarrow> Inr (s1\<lparr>warnings := warnings s1 @ [u]\<rparr>)
           | Inr resp \<Rightarrow>
               (case localPathFor P hostName u (contentType resp) of
                  Inl e \<Rightarrow> Inl e
                | Inr local \<Rightarrow>
                    let localRelative = path_relative (cwd P)
                          (path_join [dirname P, OUTPUT_BASE])
                          (path_join [dirname P, OUTPUT_BASE, local]);
                        localAbs = path_join [dirname P, OUTPUT_BASE, localRelative]
                    in case saveFile P (disk s1) localAbs (Bytes (buf resp)) of
                         Inl e \<Rightarrow> Inl e
                       | Inr fs \<Rightarrow>
                           let s2 = s1\<lparr>disk := fs,
                                       urlToLocalPath :=
                                         (urlToLocalPath s1)(u \<mapsto> replace_backslash localRelative)\<rparr>
                           in if str_includes (contentType resp) ''text/css'' then
                                let cssText = decode P (buf resp);
                                    moreUrls = same_origin_urls P orig (extractUrlsFromCss P cssText u)
                                in Inr (s2\<lparr>toDownload := foldl set_add (toDownload s2) moreUrls\<rparr>)
                              else Inr s2))"

text \<open>
  One wave: every URL of the snapshot goes through \<open>downloadOne\<close>, here one after the
  other in the order of the snapshot; an exception (of the Path Mapper, or of \<open>saveFile\<close>,
  which \<open>downloadOne\<close> does not catch) ends the wave.
\<close>

fun downloadAll :: "platform \<Rightarrow> string \<Rightarrow> string \<Rightarrow> string list \<Rightarrow> crawl \<Rightarrow> error + crawl" where
  "downloadAll P orig hostName [] s = Inr s"
| "downloadAll P orig hostName (u # us) s =
     (case downloadOne P orig hostName s u of
        Inl e \<Rightarrow> Inl e
      | Inr s' \<Rightarrow> downloadAll P orig hostName us s')"

text \<open>
  The loop \<open>while (toDownload.size !== prevCount)\<close>. It returns \<open>None\<close> when it runs
  forever.
\<close>

partial_function (option) waves :: "platform \<Rightarrow> string \<Rightarrow> string \<Rightarrow> nat \<Rightarrow> crawl \<Rightarrow> (error + crawl) option" where
  "waves P orig hostName prevCount s =
     (if length (toDownload s) \<noteq> prevCount then
        (case downloadAll P orig hostName (toDownload s) s of
           Inl e \<Rightarrow> Some (Inl e)
         | Inr s' \<Rightarrow> waves P orig hostName (length (toDownload s)) s')
      else Some (Inr s))"

declare waves.simps [code]

section \<open>Rewriter\<close>

fun attr_set :: "string \<Rightarrow> string \<Rightarrow> (string \<times> string) list \<Rightarrow> (string \<times> string) list" where
  "attr_set k v [] = [(k, v)]"
| "attr_set k v ((k', x) # ps) = (if k' = k then (k, v) # ps else (k', x) # attr_set k v ps)"

definition rewrite_entry :: "platform \<Rightarrow> string \<Rightarrow> (string \<rightharpoonup> string) \<Rightarrow> string \<Rightarrow> string" where
  "rewrite_entry P startUrl m entry =
     (let parts = take 2 (split_ws entry);
          uPart = (case parts of [] \<Rightarrow> [] | w # _ \<Rightarrow> w);
          descriptor = (case parts of _ # d # _ \<Rightarrow> d | _ \<Rightarrow> [])
      in case new_URL P uPart (Some startUrl) of
           None \<Rightarrow> entry
         | Some absUrl \<Rightarrow>
             (case m (href absUrl) of
                None \<Rightarrow> uPart
              | Some loc \<Rightarrow> if loc \<noteq> [] then loc else uPart)
             @ (if descriptor \<noteq> [] then '' '' @ descriptor else []))"

definition rewrite_srcset :: "platform \<Rightarrow> string \<Rightarrow> (string \<rightharpoonup> string) \<Rightarrow> string \<Rightarrow> string" where
  "rewrite_srcset P startUrl m val =
     join_with '', '' (map (rewrite_entry P startUrl m) (srcset_pieces val))"

definition rewrite_plain :: "platform \<Rightarrow> string \<Rightarrow> string \<Rightarrow> (string \<rightharpoonup> string) \<Rightarrow> string \<Rightarrow> string option" where
  "rewrite_plain P hostName startUrl m val =
     (case new_URL P val (Some startUrl) of
        None \<Rightarrow> None
      | Some absUrl \<Rightarrow>
          (case m (href absUrl) of
             None \<Rightarrow> None
           | Some localRel \<Rightarrow>
               if localRel \<noteq> []
               then Some (ensureTrailingSlash ''./'' @ path_relative (cwd P) hostName localRel)
               else None))"

text \<open>
  What the rewrite loop does to one selected element: nothing when the attribute is
  missing or empty; a \<open>srcset\<close> is always written back; any other attribute is written
  only when its URL has a local path.
\<close>

definition rewrite_el :: "platform \<Rightarrow> string \<Rightarrow> string \<Rightarrow> (string \<rightharpoonup> string) \<Rightarrow> string \<Rightarrow> element \<Rightarrow> element" where
  "rewrite_el P hostName startUrl m attr el =
     (case map_of (attrs el) attr of
        None \<Rightarrow> el
      | Some val \<Rightarrow>
          if val = [] then el
          else if attr = ''srcset''
          then el\<lparr>attrs := attr_set attr (rewrite_srcset P startUrl m val) (attrs el)\<rparr>
          else (case rewrite_plain P hostName startUrl m val of
                  None \<Rightarrow> el
                | Some v \<Rightarrow> el\<lparr>attrs := attr_set attr v (attrs el)\<rparr>))"

definition rewrite_pass :: "platform \<Rightarrow> string \<Rightarrow> string \<Rightarrow> (string \<rightharpoonup> string) \<Rightarrow> document \<Rightarrow> selector \<times> string \<Rightarrow> document" where
  "rewrite_pass P hostName startUrl m doc sa =
     (case sa of (selector, attr) \<Rightarrow>
        map (\<lambda>el. if matches selector el then rewrite_el P hostName startUrl m attr el else el) doc)"

definition rewrite :: "platform \<Rightarrow> string \<Rightarrow> string \<Rightarrow> (string \<rightharpoonup> string) \<Rightarrow> document \<Rightarrow> document" where
  "rewrite P hostName startUrl m doc = foldl (rewrite_pass P hostName startUrl m) doc assetAttrs"

section \<open>Orchestrator\<close>

definition hostToken :: "string \<Rightarrow> string" where
  "hostToken h = map (\<lambda>c. if c = CHR '':'' \<or> c = dot then underscore else c) h"

definition run :: "platform \<Rightarrow> string \<Rightarrow> (error + crawl \<times> document) option" where
  "run P urlInput =
     (case new_URL P urlInput None of
        None \<Rightarrow> Some (Inl (TypeError urlInput))
      | Some parsed \<Rightarrow>
     (let startUrl = href parsed
      in (case new_URL P startUrl None of
            None \<Rightarrow> Some (Inl (TypeError startUrl))
          | Some start \<Rightarrow>
     (let orig = origin start;
          hostName = hostToken (hostname start);
          outRoot = path_join [dirname P, OUTPUT_BASE, hostName]
      in (case mkdir P (files P) outRoot of
            Inl e \<Rightarrow> Some (Inl e)
          | Inr fs0 \<Rightarrow>
         (case fetchWithType P 0 startUrl of
            Inl e \<Rightarrow> Some (Inl e)
          | Inr htmlRes \<Rightarrow>
     (let htmlText = decode P (buf htmlRes);
          doc = cheerio_load P htmlText;
          assets = collectAndRewriteHtml P doc startUrl True orig;
          s0 = \<lparr>toDownload = new_Set assets, urlToLocalPath = Map.empty,
                disk = fs0, requests = [startUrl], warnings = []\<rparr>
      in (case downloadAll P orig hostName (toDownload s0) s0 of
            Inl e \<Rightarrow> Some (Inl e)
          | Inr s1 \<Rightarrow>
         (case waves P orig hostName 0 s1 of
            None \<Rightarrow> None
          | Some (Inl e) \<Rightarrow> Some (Inl e)
          | Some (Inr s2) \<Rightarrow>
     (let doc' = rewrite P hostName startUrl (urlToLocalPath s2) doc;
          htmlOut = path_join [outRoot, ''index.html'']
      in (case saveFile P (disk s2) htmlOut (Text (cheerio_html P doc')) of
            Inl e \<Rightarrow> Some (Inl e)
          | Inr fs \<Rightarrow> Some (Inr (s2\<lparr>disk := fs\<rparr>, doc')))))))))))))"


section \<open>A small site\<close>

text \<open>
  The page \<open>https://example.test/\<close> holds one image with \<open>src="a.png"\<close> and
  \<open>srcset="a.png 1x, b.png 2x"\<close>. The server has \<open>a.png\<close>; it answers 404 for \<open>b.png\<close>.
  The URL constructor is given by the table of the calls the run makes.
\<close>

definition mk_url :: "string \<Rightarrow> string \<Rightarrow> url" where
  "mk_url h p =
     \<lparr>href = ''https://'' @ h @ p, origin = ''https://'' @ h, hostname = h, pathname = p\<rparr>"

definition demo_URL :: "string \<Rightarrow> string option \<Rightarrow> url option" where
  "demo_URL input base =
     map_of
       [((''https://example.test/'', None), mk_url ''example.test'' ''/''),
        ((''https://example.test/a.png'', None), mk_url ''example.test'' ''/a.png''),
        ((''https://example.test/b.png'', None), mk_url ''example.test'' ''/b.png''),
        ((''a.png'', Some ''https://example.test/''), mk_url ''example.test'' ''/a.png''),
        ((''b.png'', Some ''https://example.test/''), mk_url ''example.test'' ''/b.png'')]
       (input, base)"

text \<open>
  The bodies of the examples are ASCII, which the decoder leaves as it is; their file
  system is empty at the start and refuses nothing.
\<close>

definition ascii :: "bytes \<Rightarrow> string" where
  "ascii b = b"

definition demo_fetch :: "nat \<Rightarrow> string \<Rightarrow> http_result" where
  "demo_fetch n u =
     (if u = ''https://example.test/'' then Http 200 (Some ''text/html'') ''<img>''
      else if u = ''https://example.test/a.png'' then Http 200 (Some ''image/png'') ''PNG''
      else Http 404 None [])"

definition demo_doc :: document where
  "demo_doc =
     [\<lparr>tag = ''img'', attrs = [(''src'', ''a.png''), (''srcset'', ''a.png 1x, b.png 2x'')]\<rparr>]"

text \<open>A serialiser that writes each element as its tag and its attributes.\<close>

definition demo_html :: "document \<Rightarrow> string" where
  "demo_html d =
     concat (map (\<lambda>e. ''<'' @ tag e @ concat (map (\<lambda>(k, v). '' '' @ k @ ''='' @ v) (attrs e)) @ ''>'') d)"

definition demo :: platform where
  "demo =
     \<lparr>new_URL = demo_URL, net_fetch = demo_fetch, decode = ascii,
      cheerio_load = (\<lambda>_. demo_doc), cheerio_html = demo_html,
      files = Map.empty, denied = (\<lambda>_. False), dirname = ''/app'', cwd = ''/app''\<rparr>"

section \<open>The result of the Path Mapper in closed form\<close>

text \<open>
  What \<open>extFromUrlOrType\<close> and \<open>localPathFor\<close> compute for the path of a parsed URL and a
  content type: the extension the code infers from a content type, the extension it
  derives, the file name it guesses, and the path it returns when \<open>path.join\<close> has nothing
  to normalise.
\<close>

definition inferred_extension :: "string \<Rightarrow> string" where
  "inferred_extension ct =
     (if str_includes ct ''text/html'' then ''.html''
      else if str_includes ct ''text/css'' then ''.css''
      else if str_includes ct ''javascript'' then ''.js''
      else if str_includes ct ''image/'' then
        (let sub = takeWhile (\<lambda>c. c \<noteq> slash \<and> c \<noteq> CHR '';'')
                     (drop 1 (dropWhile (\<lambda>c. c \<noteq> slash) ct))
         in ''.'' @ (if sub = ''jpeg'' then ''jpg'' else sub))
      else if str_includes ct ''font/'' then ''.woff2''
      else [])"

definition derived_extension :: "string \<Rightarrow> string \<Rightarrow> string" where
  "derived_extension path ct =
     (if extname path \<noteq> [] then toLowerCase (extname path) else inferred_extension ct)"

definition derived_name :: "string \<Rightarrow> string \<Rightarrow> string" where
  "derived_name path ext =
     (let clean = take 200 (map (\<lambda>c. if hostile c then underscore else c) (basename path));
          name = (if clean = [] then ''index'' else clean)
      in name @ (if extname path = [] then ext else []))"

definition derived_path :: "string \<Rightarrow> string \<Rightarrow> string \<Rightarrow> string" where
  "derived_path token path ext =
     token @ ''/''
     @ (if chooseSubdirByExt ext = [] then [] else chooseSubdirByExt ext @ ''/'')
     @ derived_name path ext"

section \<open>The Path Mapper as the specification words it\<close>

text \<open>
  The reference definition of \<open>deriveLocalPath\<close>, clause by clause, on the path of the URL
  and the content type. The extension of a path is read as its \<open>extname\<close>. The last path
  segment is what follows the last slash. A content type is a media type that parameters
  may follow after a semicolon, and the \<open><sub>\<close> of \<open>image/<sub>\<close> is what stands between
  \<open>image/\<close> and the parameters.
\<close>

definition last_segment :: "string \<Rightarrow> string" where
  "last_segment path = last (split_on slash path)"

text \<open>What follows the first occurrence of \<open>sub\<close> in \<open>s\<close>.\<close>

fun after_first :: "string \<Rightarrow> string \<Rightarrow> string" where
  "after_first sub [] = []"
| "after_first sub (c # cs) =
     (if startsWith (c # cs) sub then drop (length sub) (c # cs) else after_first sub cs)"

definition spec_typeExtension :: "string \<Rightarrow> string" where
  "spec_typeExtension ct =
     (if str_includes ct ''text/html'' then ''.html''
      else if str_includes ct ''text/css'' then ''.css''
      else if str_includes ct ''javascript'' then ''.js''
      else if str_includes ct ''image/'' then
        (let sub = takeWhile (\<lambda>c. c \<noteq> CHR '';'') (after_first ''image/'' ct)
         in ''.'' @ (if sub = ''jpeg'' then ''jpg'' else sub))
      else if str_includes ct ''font/'' then ''.woff2''
      else [])"

text \<open>The extension as the specification words it: that of the URL path as it stands.\<close>

definition spec_extension :: "string \<Rightarrow> string \<Rightarrow> string" where
  "spec_extension path ct = (if extname path \<noteq> [] then extname path else spec_typeExtension ct)"


definition spec_subdirectory :: "string \<Rightarrow> string" where
  "spec_subdirectory ext =
     (if ext = ''.css'' then ''css/''
      else if ext = ''.js'' then ''js/''
      else if ext \<in> {''.png'', ''.jpg'', ''.jpeg'', ''.gif'', ''.webp'', ''.svg'', ''.avif''}
        then ''img/''
      else if ext \<in> {''.woff'', ''.woff2'', ''.ttf'', ''.otf'', ''.eot''} then ''fonts/''
      else if ext = ''.html'' \<or> ext = [] then []
      else ''assets/'')"

definition spec_filename :: "string \<Rightarrow> string \<Rightarrow> string" where
  "spec_filename path ext =
     (let clean = take 200 (map (\<lambda>c. if hostile c then underscore else c) (last_segment path));
          name = (if clean = [] then ''index'' else clean)
      in name @ (if extname path = [] then ext else []))"

definition spec_localPath :: "string \<Rightarrow> string \<Rightarrow> string \<Rightarrow> string" where
  "spec_localPath token path ext = token @ ''/'' @ spec_subdirectory ext @ spec_filename path ext"

definition spec_deriveLocalPath :: "string \<Rightarrow> string \<Rightarrow> string \<Rightarrow> string" where
  "spec_deriveLocalPath token path ct = spec_localPath token path (spec_extension path ct)"



text \<open>
  A proper segment of a path: not empty, without a slash, and neither \<open>.\<close> nor \<open>..\<close>.
  The host token of a run is one.
\<close>

definition proper_segment :: "string \<Rightarrow> bool" where
  "proper_segment s = (s \<noteq> [] \<and> slash \<notin> set s \<and> s \<noteq> [dot] \<and> s \<noteq> [dot, dot])"

text \<open>The URLs of the examples about paths, as the URL constructor parses them.\<close>

definition paths_URL :: "string \<Rightarrow> string option \<Rightarrow> url option" where
  "paths_URL input base =
     map_of
       [((''https://example.test/S.CSS'', None), mk_url ''example.test'' ''/S.CSS''),
        ((''https://example.test/fonts/'', None), mk_url ''example.test'' ''/fonts/''),
        ((''https://example.test/photo'', None), mk_url ''example.test'' ''/photo''),
        ((''https://example.test/plain'', None), mk_url ''example.test'' ''/plain'')]
       (input, base)"

definition paths :: platform where
  "paths = demo\<lparr>new_URL := paths_URL\<rparr>"

section \<open>Notions for the properties of a run\<close>

text \<open>The value \<open>downloadOne\<close> stores for a local path, and the file it writes.\<close>

definition stored_path :: "platform \<Rightarrow> string \<Rightarrow> string" where
  "stored_path P local =
     replace_backslash (path_relative (cwd P) (path_join [dirname P, OUTPUT_BASE])
                          (path_join [dirname P, OUTPUT_BASE, local]))"

definition saved_file :: "platform \<Rightarrow> string \<Rightarrow> string" where
  "saved_file P local =
     path_join [dirname P, OUTPUT_BASE,
                path_relative (cwd P) (path_join [dirname P, OUTPUT_BASE])
                  (path_join [dirname P, OUTPUT_BASE, local])]"

text \<open>The URLs a fetched response adds to the set: those of a style sheet, same origin only.\<close>

definition discovered :: "platform \<Rightarrow> string \<Rightarrow> string \<Rightarrow> response \<Rightarrow> string list" where
  "discovered P orig u resp =
     (if str_includes (contentType resp) ''text/css''
      then same_origin_urls P orig (extractUrlsFromCss P (decode P (buf resp)) u) else [])"

text \<open>
  The URLs a run can come to know: the seeds, and what any successful response to a
  known URL adds.
\<close>

inductive_set reachable :: "platform \<Rightarrow> string \<Rightarrow> string set \<Rightarrow> string set"
  for P :: platform and orig :: string and seeds :: "string set" where
    seed: "u \<in> seeds \<Longrightarrow> u \<in> reachable P orig seeds"
  | found: "u \<in> reachable P orig seeds \<Longrightarrow> fetchWithType P n u = Inr resp \<Longrightarrow>
            v \<in> set (discovered P orig u resp) \<Longrightarrow> v \<in> reachable P orig seeds"




text \<open>An absolute directory: a slash, then proper segments joined by slashes.\<close>

definition absolute_dir :: "string \<Rightarrow> bool" where
  "absolute_dir d =
     (case d of [] \<Rightarrow> False
      | c # r \<Rightarrow> c = slash \<and> list_all proper_segment (split_on slash r))"

text \<open>A path of proper segments.\<close>

definition proper_path :: "string \<Rightarrow> bool" where
  "proper_path p = list_all proper_segment (split_on slash p)"

text \<open>The page of a run: the body of the seed's response, decoded and parsed.\<close>

definition page :: "platform \<Rightarrow> response \<Rightarrow> document" where
  "page P htmlRes = cheerio_load P (decode P (buf htmlRes))"

text \<open>
  The state in which the pool starts: the references of the page, nothing fetched yet,
  the output folder made.
\<close>

definition initial :: "platform \<Rightarrow> (string \<rightharpoonup> node) \<Rightarrow> string \<Rightarrow> string \<Rightarrow> document \<Rightarrow> crawl" where
  "initial P fs startUrl orig doc =
     \<lparr>toDownload = new_Set (collectAndRewriteHtml P doc startUrl True orig),
      urlToLocalPath = Map.empty, disk = fs, requests = [startUrl], warnings = []\<rparr>"

text \<open>The output folder of a run, and where the page itself is saved.\<close>

definition out_root :: "platform \<Rightarrow> string \<Rightarrow> string" where
  "out_root P hostName = path_join [dirname P, OUTPUT_BASE, hostName]"

definition index_file :: "platform \<Rightarrow> string \<Rightarrow> string" where
  "index_file P hostName = path_join [out_root P hostName, ''index.html'']"


definition backslash :: char where
  "backslash = CHR 0x5C"

text \<open>
  What a value of the map is: the path the Path Mapper derives for its URL under the
  host token, with backslashes turned into slashes.
\<close>

definition host_rooted :: "platform \<Rightarrow> string \<Rightarrow> string \<Rightarrow> string \<Rightarrow> bool" where
  "host_rooted P token u p =
     (\<exists>ct local. localPathFor P token u ct = Inr local \<and> p = replace_backslash local)"

text \<open>
  The states of the pool on the small site: at its start, after the download of
  \<open>a.png\<close>, after the first wave, and at the end of the loop.
\<close>

definition demo_origin :: string where
  "demo_origin = ''https://example.test''"

definition demo_host :: string where
  "demo_host = ''example_test''"

definition url_a :: string where
  "url_a = ''https://example.test/a.png''"

definition url_b :: string where
  "url_b = ''https://example.test/b.png''"

definition demo_fs0 :: "string \<rightharpoonup> node" where
  "demo_fs0 =
     [''/app'' \<mapsto> Directory, ''/app/downloaded'' \<mapsto> Directory,
      ''/app/downloaded/example_test'' \<mapsto> Directory]"

definition demo_fs1 :: "string \<rightharpoonup> node" where
  "demo_fs1 =
     demo_fs0(''/app/downloaded/example_test/img'' \<mapsto> Directory,
              ''/app/downloaded/example_test/img/a.png'' \<mapsto> File (Bytes ''PNG''))"

definition demo_s0 :: crawl where
  "demo_s0 =
     \<lparr>toDownload = [url_a, url_b], urlToLocalPath = Map.empty, disk = demo_fs0,
      requests = [''https://example.test/''], warnings = []\<rparr>"

definition demo_s1 :: crawl where
  "demo_s1 =
     \<lparr>toDownload = [url_a, url_b],
      urlToLocalPath = [url_a \<mapsto> ''example_test/img/a.png''],
      disk = demo_fs1,
      requests = [''https://example.test/'', url_a], warnings = []\<rparr>"

definition demo_s2 :: crawl where
  "demo_s2 = demo_s1\<lparr>requests := [''https://example.test/'', url_a, url_b], warnings := [url_b]\<rparr>"

definition demo_s3 :: crawl where
  "demo_s3 =
     demo_s1\<lparr>requests := [''https://example.test/'', url_a, url_b, url_b],
             warnings := [url_b, url_b]\<rparr>"

text \<open>The page the run on the small site writes, and the state it ends in.\<close>

definition demo_out :: document where
  "demo_out =
     [\<lparr>tag = ''img'',
       attrs = [(''src'', ''./img/a.png''),
                (''srcset'', ''example_test/img/a.png 1x, b.png 2x'')]\<rparr>]"

definition demo_final :: crawl where
  "demo_final =
     demo_s3\<lparr>disk := demo_fs1(''/app/downloaded/example_test/index.html''
                                  \<mapsto> File (Text (demo_html demo_out)))\<rparr>"

section \<open>A site with style sheets\<close>



definition site_seed :: string where
  "site_seed = ''https://example.test/''"










section \<open>A site where a file stands in the way of a folder\<close>






section \<open>A server that fails once\<close>

text \<open>
  The small site, on a server that answers the first request for \<open>b.png\<close> (the third
  request of the run) with 503 and every later one with the image.
\<close>

definition flaky_fetch :: "nat \<Rightarrow> string \<Rightarrow> http_result" where
  "flaky_fetch n u =
     (if u = ''https://example.test/'' then Http 200 (Some ''text/html'') ''<img>''
      else if u = ''https://example.test/a.png'' then Http 200 (Some ''image/png'') ''PNG''
      else if u = ''https://example.test/b.png'' then
        (if n \<le> 2 then Http 503 None [] else Http 200 (Some ''image/png'') ''PNG'')
      else Http 404 None [])"

definition flaky :: platform where
  "flaky = demo\<lparr>net_fetch := flaky_fetch\<rparr>"

section \<open>Notions for the properties of the Rewriter\<close>

text \<open>What the loop over the selectors does to one element.\<close>

definition rewrite_element :: "platform \<Rightarrow> string \<Rightarrow> string \<Rightarrow> (string \<rightharpoonup> string) \<Rightarrow> element \<Rightarrow> element" where
  "rewrite_element P hostName startUrl m el =
     foldl (\<lambda>e sa. case sa of (selector, attr) \<Rightarrow>
              if matches selector e then rewrite_el P hostName startUrl m attr e else e)
           el assetAttrs"

text \<open>One step of that loop.\<close>

definition pass_on :: "platform \<Rightarrow> string \<Rightarrow> string \<Rightarrow> (string \<rightharpoonup> string) \<Rightarrow> element \<Rightarrow> selector \<times> string \<Rightarrow> element" where
  "pass_on P h su m e sa =
     (case sa of (selector, attr) \<Rightarrow>
        if matches selector e then rewrite_el P h su m attr e else e)"

text \<open>The descriptor of a candidate as it is written back: a space and the second word.\<close>

definition descriptor_suffix :: "string \<Rightarrow> string" where
  "descriptor_suffix entry =
     (case take 2 (split_ws entry) of
        _ # d # _ \<Rightarrow> if d \<noteq> [] then '' '' @ d else []
      | _ \<Rightarrow> [])"

text \<open>Parsing the serialisation of a parsed URL gives that URL back.\<close>

definition roundtrip :: "platform \<Rightarrow> bool" where
  "roundtrip P = (\<forall>i b x. new_URL P i b = Some x \<longrightarrow> new_URL P (href x) None = Some x)"

definition same_origin :: "platform \<Rightarrow> string \<Rightarrow> string \<Rightarrow> bool" where
  "same_origin P orig u = (\<exists>y. new_URL P u None = Some y \<and> origin y = orig)"

text \<open>
  Every URL of the set to download has the origin of the seed, and only the seed and
  URLs of the set were requested or resolved.
\<close>

definition confined :: "platform \<Rightarrow> string \<Rightarrow> string \<Rightarrow> crawl \<Rightarrow> bool" where
  "confined P orig startUrl s =
     ((\<forall>u \<in> set (toDownload s). same_origin P orig u)
      \<and> set (requests s) \<subseteq> insert startUrl (set (toDownload s))
      \<and> dom (urlToLocalPath s) \<subseteq> set (toDownload s))"

section \<open>A page with references to another origin\<close>

text \<open>
  The page \<open>https://example.test/\<close> loads a script from \<open>cdn.example\<close> and shows an image
  whose two candidates are on \<open>cdn.example\<close>, written without a space after the comma.
\<close>

definition cdn_a :: string where
  "cdn_a = ''https://cdn.example/a.png''"

definition cdn_b :: string where
  "cdn_b = ''https://cdn.example/b.png''"

definition cdn_lib :: string where
  "cdn_lib = ''https://cdn.example/lib.js''"

definition offsite_srcset :: string where
  "offsite_srcset = ''https://cdn.example/a.png 1x,https://cdn.example/b.png 2x''"

definition offsite_URL :: "string \<Rightarrow> string option \<Rightarrow> url option" where
  "offsite_URL input base =
     map_of
       [((site_seed, None), mk_url ''example.test'' ''/''),
        ((cdn_a, None), mk_url ''cdn.example'' ''/a.png''),
        ((cdn_b, None), mk_url ''cdn.example'' ''/b.png''),
        ((cdn_lib, None), mk_url ''cdn.example'' ''/lib.js''),
        ((cdn_a, Some site_seed), mk_url ''cdn.example'' ''/a.png''),
        ((cdn_b, Some site_seed), mk_url ''cdn.example'' ''/b.png''),
        ((cdn_lib, Some site_seed), mk_url ''cdn.example'' ''/lib.js'')]
       (input, base)"

definition offsite_doc :: document where
  "offsite_doc =
     [\<lparr>tag = ''script'', attrs = [(''src'', cdn_lib)]\<rparr>,
      \<lparr>tag = ''img'', attrs = [(''srcset'', offsite_srcset)]\<rparr>]"

definition offsite :: platform where
  "offsite =
     \<lparr>new_URL = offsite_URL, net_fetch = (\<lambda>n u. Http 200 (Some ''text/html'') ''<script><img>''),
      decode = ascii, cheerio_load = (\<lambda>_. offsite_doc), cheerio_html = demo_html,
      files = Map.empty, denied = (\<lambda>_. False), dirname = ''/app'', cwd = ''/app''\<rparr>"

definition offsite_out :: document where
  "offsite_out =
     [\<lparr>tag = ''script'', attrs = [(''src'', cdn_lib)]\<rparr>,
      \<lparr>tag = ''img'',
       attrs = [(''srcset'', ''https://cdn.example/a.png 1x, https://cdn.example/b.png 2x'')]\<rparr>]"

definition offsite_final :: crawl where
  "offsite_final =
     \<lparr>toDownload = [], urlToLocalPath = Map.empty,
      disk = demo_fs0(''/app/downloaded/example_test/index.html''
                        \<mapsto> File (Text (demo_html offsite_out))),
      requests = [site_seed], warnings = []\<rparr>"

section \<open>Notions for a second rewrite pass\<close>

text \<open>
  The references the rewrite loop reads in an element for one attribute: the value, or
  the first word of every candidate of a \<open>srcset\<close>.
\<close>

definition refs_of :: "string \<Rightarrow> element \<Rightarrow> string list" where
  "refs_of attr el =
     (case map_of (attrs el) attr of
        None \<Rightarrow> []
      | Some val \<Rightarrow>
          if val = [] then []
          else if attr = ''srcset'' then map first_word (srcset_pieces val)
          else [val])"

text \<open>
  A reference that a rewrite pass leaves as it is: it does not parse, or resolves to no
  key of the map, or the key's local path is written as the reference itself.
\<close>

definition fixed_ref :: "platform \<Rightarrow> string \<Rightarrow> string \<Rightarrow> (string \<rightharpoonup> string) \<Rightarrow> string \<Rightarrow> string \<Rightarrow> bool" where
  "fixed_ref P hostName startUrl m attr r =
     (if attr = ''srcset'' then
        (case new_URL P r (Some startUrl) of
           None \<Rightarrow> True
         | Some x \<Rightarrow> (case m (href x) of None \<Rightarrow> True | Some loc \<Rightarrow> loc = [] \<or> loc = r))
      else
        (case rewrite_plain P hostName startUrl m r of None \<Rightarrow> True | Some v \<Rightarrow> v = r))"

definition settled :: "platform \<Rightarrow> string \<Rightarrow> string \<Rightarrow> (string \<rightharpoonup> string) \<Rightarrow> document \<Rightarrow> bool" where
  "settled P hostName startUrl m doc =
     list_all (\<lambda>el.
        list_all (\<lambda>sa. case sa of (selector, attr) \<Rightarrow>
                    \<not> matches selector el
                    \<or> list_all (fixed_ref P hostName startUrl m attr) (refs_of attr el))
                 assetAttrs)
       doc"

text \<open>
  What the rewrite loop writes for a local path into an attribute other than \<open>srcset\<close>.
\<close>

definition written_plain :: "platform \<Rightarrow> string \<Rightarrow> string \<Rightarrow> string" where
  "written_plain P hostName loc = ensureTrailingSlash ''./'' @ path_relative (cwd P) hostName loc"

text \<open>
  A map whose written references lead nowhere else: when the reference written for an
  entry (\<open>./\<close> and the relative path in an attribute, the local path itself in a \<open>srcset\<close>)
  resolves against the start URL to a key of the map, the entry of that key is written
  the same way.
\<close>

definition stable :: "platform \<Rightarrow> string \<Rightarrow> string \<Rightarrow> (string \<rightharpoonup> string) \<Rightarrow> bool" where
  "stable P hostName startUrl m =
     (\<forall>u loc x loc'. m u = Some loc \<longrightarrow> loc \<noteq> [] \<longrightarrow> m (href x) = Some loc' \<longrightarrow> loc' \<noteq> [] \<longrightarrow>
        (new_URL P (written_plain P hostName loc) (Some startUrl) = Some x \<longrightarrow>
           written_plain P hostName loc' = written_plain P hostName loc)
        \<and> (new_URL P loc (Some startUrl) = Some x \<longrightarrow> loc' = loc))"

text \<open>Local paths without comma and without white space.\<close>

definition plain_paths :: "(string \<rightharpoonup> string) \<Rightarrow> bool" where
  "plain_paths m = (\<forall>u loc c. m u = Some loc \<longrightarrow> c \<in> set loc \<longrightarrow> c \<noteq> CHR '','' \<and> \<not> ws c)"

text \<open>A candidate as the entries of a \<open>srcset\<close> are: trimmed, not empty, without comma.\<close>

definition tidy :: "string \<Rightarrow> bool" where
  "tidy e = (e \<noteq> [] \<and> CHR '','' \<notin> set e \<and> \<not> ws (hd e) \<and> \<not> ws (last e))"

section \<open>A page whose rewritten reference names another asset\<close>

text \<open>
  The page \<open>https://example.test/\<close> loads the script \<open>/a/foo\<close>, served without a content
  type, and the style sheet \<open>/foo\<close>. The script is saved as \<open>foo\<close> in the host folder, the
  style sheet as \<open>css/foo.css\<close>.
\<close>

definition twins_URL :: "string \<Rightarrow> string option \<Rightarrow> url option" where
  "twins_URL input base =
     map_of
       [((site_seed, None), mk_url ''example.test'' ''/''),
        ((''https://example.test/a/foo'', None), mk_url ''example.test'' ''/a/foo''),
        ((''https://example.test/foo'', None), mk_url ''example.test'' ''/foo''),
        ((''https://example.test/css/foo.css'', None), mk_url ''example.test'' ''/css/foo.css''),
        ((''/a/foo'', Some site_seed), mk_url ''example.test'' ''/a/foo''),
        ((''/foo'', Some site_seed), mk_url ''example.test'' ''/foo''),
        ((''./foo'', Some site_seed), mk_url ''example.test'' ''/foo''),
        ((''./css/foo.css'', Some site_seed), mk_url ''example.test'' ''/css/foo.css'')]
       (input, base)"

definition twins_fetch :: "nat \<Rightarrow> string \<Rightarrow> http_result" where
  "twins_fetch n u =
     (if u = site_seed then Http 200 (Some ''text/html'') ''<script><link>''
      else if u = ''https://example.test/a/foo'' then Http 200 None ''f()''
      else if u = ''https://example.test/foo'' then Http 200 (Some ''text/css'') ''p{}''
      else Http 404 None [])"

definition twins_doc :: document where
  "twins_doc =
     [\<lparr>tag = ''script'', attrs = [(''src'', ''/a/foo'')]\<rparr>,
      \<lparr>tag = ''link'', attrs = [(''rel'', ''stylesheet''), (''href'', ''/foo'')]\<rparr>]"

definition twins_once :: document where
  "twins_once =
     [\<lparr>tag = ''script'', attrs = [(''src'', ''./foo'')]\<rparr>,
      \<lparr>tag = ''link'', attrs = [(''rel'', ''stylesheet''), (''href'', ''./css/foo.css'')]\<rparr>]"

definition twins_twice :: document where
  "twins_twice =
     [\<lparr>tag = ''script'', attrs = [(''src'', ''./css/foo.css'')]\<rparr>,
      \<lparr>tag = ''link'', attrs = [(''rel'', ''stylesheet''), (''href'', ''./css/foo.css'')]\<rparr>]"

definition twins :: platform where
  "twins =
     \<lparr>new_URL = twins_URL, net_fetch = twins_fetch, decode = ascii,
      cheerio_load = (\<lambda>_. twins_doc), cheerio_html = demo_html,
      files = Map.empty, denied = (\<lambda>_. False), dirname = ''/app'', cwd = ''/app''\<rparr>"

section \<open>A page whose local layout is that of the site\<close>

text \<open>
  The image \<open>/img/a.png\<close> of \<open>https://example.test/\<close> has the local path
  \<open>example_test/img/a.png\<close>; \<open>/img/b.png\<close> has none.
\<close>

definition mirror_URL :: "string \<Rightarrow> string option \<Rightarrow> url option" where
  "mirror_URL input base =
     map_of
       [((''/img/a.png'', Some site_seed), mk_url ''example.test'' ''/img/a.png''),
        ((''/img/b.png'', Some site_seed), mk_url ''example.test'' ''/img/b.png''),
        ((''./img/a.png'', Some site_seed), mk_url ''example.test'' ''/img/a.png''),
        ((''example_test/img/a.png'', Some site_seed),
           mk_url ''example.test'' ''/example_test/img/a.png'')]
       (input, base)"

definition mirror :: platform where
  "mirror = demo\<lparr>new_URL := mirror_URL\<rparr>"

definition mirror_map :: "string \<rightharpoonup> string" where
  "mirror_map = [''https://example.test/img/a.png'' \<mapsto> ''example_test/img/a.png'']"

definition mirror_doc :: document where
  "mirror_doc =
     [\<lparr>tag = ''img'',
       attrs = [(''src'', ''/img/a.png''), (''srcset'', ''/img/a.png 1x,/img/b.png   2x'')]\<rparr>]"

definition mirror_out :: document where
  "mirror_out =
     [\<lparr>tag = ''img'',
       attrs = [(''src'', ''./img/a.png''),
                (''srcset'', ''example_test/img/a.png 1x, /img/b.png 2x'')]\<rparr>]"

section \<open>Facts about strings and paths\<close>

lemma split_on_nonempty: "split_on c s \<noteq> []"
  by (induction s) (auto split: list.splits)

lemma split_on_free: "x \<in> set (split_on c s) \<Longrightarrow> c \<notin> set x"
proof (induction s arbitrary: x)
  case Nil
  then show ?case by simp
next
  case (Cons a s)
  show ?case
  proof (cases "a = c")
    case True
    with Cons show ?thesis by auto
  next
    case False
    obtain y ys where ys: "split_on c s = y # ys"
      using split_on_nonempty[of c s] by (cases "split_on c s") auto
    with Cons False show ?thesis by auto
  qed
qed

lemma split_on_single: "c \<notin> set s \<Longrightarrow> split_on c s = [s]"
  by (induction s) auto

lemma split_on_append: "c \<notin> set a \<Longrightarrow> split_on c (a @ c # r) = a # split_on c r"
  by (induction a) auto

lemma split_on_join:
  "segs \<noteq> [] \<Longrightarrow> \<forall>s \<in> set segs. c \<notin> set s \<Longrightarrow> split_on c (join_with [c] segs) = segs"
proof (induction segs)
  case Nil
  then show ?case by simp
next
  case (Cons x xs)
  show ?case
  proof (cases xs)
    case Nil
    with Cons.prems show ?thesis by (simp add: split_on_single)
  next
    case (Cons y ys)
    with Cons.IH Cons.prems show ?thesis by (simp add: split_on_append)
  qed
qed

lemma foldl_norm_proper:
  "\<forall>s \<in> set segs. proper_segment s \<Longrightarrow> foldl (norm_step a) acc segs = acc @ segs"
  by (induction segs arbitrary: acc) (auto simp: norm_step_def proper_segment_def)

lemma join_with_Cons: "join_with sep (x # xs) = (if xs = [] then x else x @ sep @ join_with sep xs)"
  by (cases xs) auto

lemma join_with_nonempty: "segs \<noteq> [] \<Longrightarrow> hd segs \<noteq> [] \<Longrightarrow> join_with sep segs \<noteq> []"
  by (cases segs) (auto simp: join_with_Cons)

lemma split_on_hd_sep: "s \<noteq> [] \<Longrightarrow> hd s = c \<Longrightarrow> hd (split_on c s) = []"
  by (cases s) auto

lemma split_on_empty_piece: "split_on c s = [[]] \<Longrightarrow> s = []"
proof (cases s)
  case Nil
  then show ?thesis by simp
next
  case (Cons a r)
  assume e: "split_on c s = [[]]"
  obtain y ys where ys: "split_on c r = y # ys"
    using split_on_nonempty[of c r] by (cases "split_on c r") auto
  with Cons e show ?thesis by (auto split: if_splits)
qed

lemma split_on_last_sep: "s \<noteq> [] \<Longrightarrow> last s = c \<Longrightarrow> last (split_on c s) = []"
proof (induction s)
  case Nil
  then show ?case by simp
next
  case (Cons a s)
  obtain y ys where ys: "split_on c s = y # ys"
    using split_on_nonempty[of c s] by (cases "split_on c s") auto
  show ?case
  proof (cases "s = []")
    case True
    with Cons.prems show ?thesis by simp
  next
    case False
    with Cons ys show ?thesis by (auto split: if_splits dest: split_on_empty_piece)
  qed
qed

lemma normalize_proper:
  assumes "segs \<noteq> []" "\<forall>s \<in> set segs. proper_segment s"
  shows "normalize (join_with [slash] segs) = join_with [slash] segs"
proof -
  let ?p = "join_with [slash] segs"
  have free: "\<forall>s \<in> set segs. slash \<notin> set s" using assms(2) by (simp add: proper_segment_def)
  have sp: "split_on slash ?p = segs" by (rule split_on_join[OF assms(1) free])
  have "hd segs \<in> set segs" "last segs \<in> set segs" using assms(1) by simp_all
  with assms(2) have hdne: "hd segs \<noteq> []" and lastne: "last segs \<noteq> []"
    by (auto simp: proper_segment_def)
  have ne: "?p \<noteq> []" using assms(1) hdne by (rule join_with_nonempty)
  have h: "hd ?p \<noteq> slash" using split_on_hd_sep[OF ne, of slash] sp hdne by auto
  have l: "last ?p \<noteq> slash" using split_on_last_sep[OF ne, of slash] sp lastne by auto
  have ns: "normalizeString ?p True = segs"
    unfolding normalizeString_def sp by (simp add: foldl_norm_proper[OF assms(2)])
  show ?thesis
    unfolding normalize_def Let_def using ne h l ns by simp
qed

lemma path_join_proper:
  assumes "segs \<noteq> []" "\<forall>s \<in> set segs. proper_segment s"
  shows "path_join segs = join_with [slash] segs"
proof -
  have f: "filter (\<lambda>a. a \<noteq> []) segs = segs"
    using assms(2) by (auto simp: proper_segment_def filter_id_conv)
  have "hd segs \<in> set segs" using assms(1) by simp
  with assms(2) have hdne: "hd segs \<noteq> []" by (auto simp: proper_segment_def)
  have ne: "join_with [slash] segs \<noteq> []" using assms(1) hdne by (rule join_with_nonempty)
  show ?thesis
    unfolding path_join_def Let_def f using ne normalize_proper[OF assms] by simp
qed

section \<open>Facts about the Path Mapper\<close>

lemma startsWith_set: "startsWith s p \<Longrightarrow> set p \<subseteq> set s"
  by (induction s p rule: startsWith.induct) auto

lemma str_includes_set: "str_includes s sub \<Longrightarrow> set sub \<subseteq> set s"
proof (induction s)
  case Nil
  then show ?case by simp
next
  case (Cons a s)
  then show ?case using startsWith_set[of "a # s" sub] by auto
qed

lemma split_on_unfold:
  "split_on c s = takeWhile (\<lambda>x. x \<noteq> c) s
     # (case dropWhile (\<lambda>x. x \<noteq> c) s of [] \<Rightarrow> [] | _ # r \<Rightarrow> split_on c r)"
proof (induction s)
  case Nil
  then show ?case by simp
next
  case (Cons a s)
  obtain y ys where ys: "split_on c s = y # ys"
    using split_on_nonempty[of c s] by (cases "split_on c s") auto
  with Cons show ?case by (auto split: list.splits)
qed

lemma takeWhile_twice: "takeWhile P (takeWhile Q xs) = takeWhile (\<lambda>x. Q x \<and> P x) xs"
  by (induction xs) auto

lemma split_on_second:
  assumes "c \<in> set s"
  shows "\<exists>rest. split_on c s = takeWhile (\<lambda>x. x \<noteq> c) s
           # takeWhile (\<lambda>x. x \<noteq> c) (drop 1 (dropWhile (\<lambda>x. x \<noteq> c) s)) # rest"
proof -
  from assms have "dropWhile (\<lambda>x. x \<noteq> c) s \<noteq> []" by simp
  then obtain a r where d: "dropWhile (\<lambda>x. x \<noteq> c) s = a # r"
    by (cases "dropWhile (\<lambda>x. x \<noteq> c) s") auto
  have "split_on c s = takeWhile (\<lambda>x. x \<noteq> c) s # split_on c r"
    by (subst split_on_unfold) (simp add: d)
  moreover have "split_on c r = takeWhile (\<lambda>x. x \<noteq> c) r
      # (case dropWhile (\<lambda>x. x \<noteq> c) r of [] \<Rightarrow> [] | _ # r' \<Rightarrow> split_on c r')"
    by (rule split_on_unfold)
  ultimately show ?thesis using d by simp
qed

lemma extFromUrlOrType_derived:
  assumes "new_URL P u None = Some x"
  shows "extFromUrlOrType P u ct = Inr (derived_extension (pathname x) ct)"
proof (cases "str_includes ct ''image/''")
  case False
  then show ?thesis
    using assms by (auto simp: extFromUrlOrType_def derived_extension_def inferred_extension_def
        toLowerCase_def Let_def)
next
  case True
  then have "slash \<in> set ct" by (auto dest!: str_includes_set simp: slash_def)
  from split_on_second[OF this] obtain rest where
    sp: "split_on slash ct = takeWhile (\<lambda>x. x \<noteq> slash) ct
           # takeWhile (\<lambda>x. x \<noteq> slash) (drop 1 (dropWhile (\<lambda>x. x \<noteq> slash) ct)) # rest" ..
  have hd: "\<And>t. (case split_on CHR '';'' t of [] \<Rightarrow> [] | s # _ \<Rightarrow> s) = takeWhile (\<lambda>x. x \<noteq> CHR '';'') t"
    by (subst split_on_unfold) simp
  have ne: "ct \<noteq> []" using True by auto
  show ?thesis
    using assms True ne
    by (simp add: extFromUrlOrType_def derived_extension_def inferred_extension_def
        toLowerCase_def Let_def sp hd takeWhile_twice)
qed

lemma sanitized_dot:
  "take 200 (map (\<lambda>c. if hostile c then underscore else c) b) = [dot] \<Longrightarrow> b = [dot]"
proof -
  assume a: "take 200 (map (\<lambda>c. if hostile c then underscore else c) b) = [dot]"
  then have "length (take 200 b) = 1" by (metis length_map take_map length_Cons list.size(3) One_nat_def)
  then have "length b = 1" by (auto simp: min_def split: if_splits)
  then obtain c where b: "b = [c]" by (cases b) auto
  with a show ?thesis by (auto simp: underscore_def dot_def split: if_splits)
qed

lemma sanitized_dotdot:
  "take 200 (map (\<lambda>c. if hostile c then underscore else c) b) = [dot, dot] \<Longrightarrow> b = [dot, dot]"
proof -
  assume a: "take 200 (map (\<lambda>c. if hostile c then underscore else c) b) = [dot, dot]"
  then have "length (take 200 (map (\<lambda>c. if hostile c then underscore else c) b)) = 2" by simp
  then have "length b = 2" by (auto simp: min_def split: if_splits)
  then obtain c d where b: "b = [c, d]" by (cases b; cases "tl b") auto
  with a show ?thesis by (auto simp: underscore_def dot_def split: if_splits)
qed

lemma sanitized_no_slash:
  "slash \<notin> set (take 200 (map (\<lambda>c. if hostile c then underscore else c) b))"
proof
  assume "slash \<in> set (take 200 (map (\<lambda>c. if hostile c then underscore else c) b))"
  then have "slash \<in> set (map (\<lambda>c. if hostile c then underscore else c) b)"
    by (rule in_set_takeD)
  then show False by (auto simp: hostile_def slash_def underscore_def split: if_splits)
qed

lemma inferred_no_slash: "slash \<notin> set (inferred_extension ct)"
proof -
  have "slash \<notin> set (takeWhile (\<lambda>c. c \<noteq> slash \<and> c \<noteq> CHR '';'') xs)" for xs
    by (auto dest: set_takeWhileD)
  then show ?thesis
    by (auto simp: inferred_extension_def Let_def slash_def)
qed

lemma inferred_dot: "inferred_extension ct \<noteq> [] \<Longrightarrow> hd (inferred_extension ct) = dot"
  by (auto simp: inferred_extension_def Let_def dot_def split: if_splits)

lemma derived_name_proper:
  assumes "basename path \<notin> {[dot], [dot, dot]}"
    and "extname path = [] \<longrightarrow> ext = inferred_extension ct"
  shows "proper_segment (derived_name path ext)"
proof -
  let ?clean = "take 200 (map (\<lambda>c. if hostile c then underscore else c) (basename path))"
  let ?name = "if ?clean = [] then ''index'' else ?clean"
  have n_ne: "?name \<noteq> []" by simp
  have n_slash: "slash \<notin> set ?name" using sanitized_no_slash[of "basename path"] by (simp add: slash_def)
  have n_dot: "?name \<noteq> [dot]" using assms(1) sanitized_dot[of "basename path"] by (auto simp: dot_def)
  have n_dd: "?name \<noteq> [dot, dot]" using assms(1) sanitized_dotdot[of "basename path"] by (auto simp: dot_def)
  show ?thesis
  proof (cases "extname path = [] \<and> ext \<noteq> []")
    case False
    then have "derived_name path ext = ?name" by (auto simp: derived_name_def Let_def)
    then show ?thesis using n_ne n_slash n_dot n_dd by (simp add: proper_segment_def)
  next
    case True
    then have e: "ext = inferred_extension ct" using assms(2) by simp
    have f: "derived_name path ext = ?name @ ext" using True by (auto simp: derived_name_def Let_def)
    have e_slash: "slash \<notin> set ext" using e inferred_no_slash by simp
    have e_hd: "hd ext = dot" using e True inferred_dot by simp
    have "?name @ ext \<noteq> [dot]" using n_ne True by (auto simp: append_eq_Cons_conv)
    moreover have "?name @ ext \<noteq> [dot, dot]"
    proof
      assume a: "?name @ ext = [dot, dot]"
      with n_ne True have "?name = [dot]"
        by (auto simp: append_eq_Cons_conv Cons_eq_append_conv)
      with n_dot show False by simp
    qed
    ultimately show ?thesis using f n_ne n_slash e_slash by (simp add: proper_segment_def)
  qed
qed

lemma subdir_proper: "chooseSubdirByExt ext \<noteq> [] \<Longrightarrow> proper_segment (chooseSubdirByExt ext)"
  by (auto simp: chooseSubdirByExt_def proper_segment_def slash_def dot_def split: if_splits)

lemma subdir_spec:
  "spec_subdirectory ext = (if chooseSubdirByExt ext = [] then [] else chooseSubdirByExt ext @ ''/'')"
  by (simp add: spec_subdirectory_def chooseSubdirByExt_def)

lemma sanitizeFilename_spec:
  "sanitizeFilename (if b = [] then ''index'' else b) =
     (let clean = take 200 (map (\<lambda>c. if hostile c then underscore else c) b)
      in if clean = [] then ''index'' else clean)"
  by (simp add: sanitizeFilename_def Let_def hostile_def)

lemma localPathFor_unfolded:
  assumes "new_URL P u None = Some x"
  shows "localPathFor P h u ct =
     (let ext = derived_extension (pathname x) ct;
          subdir = chooseSubdirByExt ext;
          dir = (if subdir \<noteq> [] then path_join [h, subdir] else h)
      in Inr (path_join [dir, derived_name (pathname x) ext]))"
proof -
  let ?ext = "derived_extension (pathname x) ct"
  have name: "sanitizeFilename (if basename (pathname x) = [] then ''index'' else basename (pathname x))
      @ (if ?ext \<noteq> [] \<and> extname (pathname x) = [] then ?ext else [])
    = derived_name (pathname x) ?ext"
    unfolding sanitizeFilename_spec by (auto simp: derived_name_def Let_def)
  have ne: "derived_name (pathname x) ?ext \<noteq> []"
    by (auto simp: derived_name_def Let_def)
  show ?thesis
    unfolding localPathFor_def Let_def assms extFromUrlOrType_derived[OF assms] option.case sum.case name
    using ne by simp
qed

lemma localPathFor_segments:
  assumes "new_URL P u None = Some x"
    and "proper_segment token"
    and "basename (pathname x) \<notin> {[dot], [dot, dot]}"
  shows "localPathFor P token u ct
           = Inr (derived_path token (pathname x) (derived_extension (pathname x) ct))"
proof -
  let ?ext = "derived_extension (pathname x) ct"
  let ?name = "derived_name (pathname x) ?ext"
  let ?sub = "chooseSubdirByExt ?ext"
  have pn: "proper_segment ?name"
    by (rule derived_name_proper[OF assms(3), where ct = ct]) (simp add: derived_extension_def)
  show ?thesis
  proof (cases "?sub = []")
    case True
    have "path_join [token, ?name] = join_with [slash] [token, ?name]"
      by (rule path_join_proper) (use assms(2) pn in auto)
    then show ?thesis
      using True by (simp add: localPathFor_unfolded[OF assms(1)] Let_def derived_path_def slash_def)
  next
    case False
    then have ps: "proper_segment ?sub" by (rule subdir_proper)
    have inner: "path_join [token, ?sub] = join_with [slash] [token, ?sub]"
      by (rule path_join_proper) (use assms(2) ps in auto)
    have three: "path_join [token, ?sub, ?name] = join_with [slash] [token, ?sub, ?name]"
      by (rule path_join_proper) (use assms(2) ps pn in auto)
    have tne: "token \<noteq> []" using assms(2) by (simp add: proper_segment_def)
    have nne: "?name \<noteq> []" using pn by (simp add: proper_segment_def)
    have "path_join [path_join [token, ?sub], ?name] = path_join [token, ?sub, ?name]"
      unfolding inner using False nne by (simp add: path_join_def Let_def tne)
    then show ?thesis
      using False three by (simp add: localPathFor_unfolded[OF assms(1)] Let_def derived_path_def slash_def)
  qed
qed

section \<open>Facts about the Fetch Worker Pool\<close>

lemma foldl_set_add_set: "set (foldl set_add xs ys) = set xs \<union> set ys"
  by (induction ys arbitrary: xs) (auto simp: set_add_def)


lemma foldl_set_add_prefix: "\<exists>zs. foldl set_add xs ys = xs @ zs"
proof (induction ys arbitrary: xs)
  case Nil
  then show ?case by simp
next
  case (Cons y ys)
  from Cons[of "set_add xs y"] obtain zs where
    z: "foldl set_add (set_add xs y) ys = set_add xs y @ zs" ..
  show ?case
  proof (cases "y \<in> set xs")
    case True
    then have "set_add xs y = xs" by (simp add: set_add_def)
    with z show ?thesis by simp
  next
    case False
    then have "set_add xs y = xs @ [y]" by (simp add: set_add_def)
    with z show ?thesis by simp
  qed
qed




lemma writeFile_written: "writeFile P fs p data = Inr fs' \<Longrightarrow> fs' p = Some (File data)"
  by (auto simp: writeFile_def split: option.splits node.splits if_splits)

lemma saveFile_written: "saveFile P fs p data = Inr fs' \<Longrightarrow> fs' p = Some (File data)"
  by (auto simp: saveFile_def split: sum.splits dest: writeFile_written)

lemma downloadOne_skip: "urlToLocalPath s u \<noteq> None \<Longrightarrow> downloadOne P orig h s u = Inr s"
  by (simp add: downloadOne_def)

lemma downloadOne_failed:
  "urlToLocalPath s u = None \<Longrightarrow> fetchWithType P (length (requests s)) u = Inl e \<Longrightarrow>
   downloadOne P orig h s u = Inr (s\<lparr>requests := requests s @ [u], warnings := warnings s @ [u]\<rparr>)"
  by (simp add: downloadOne_def Let_def)

lemma downloadOne_saved:
  "urlToLocalPath s u = None \<Longrightarrow> fetchWithType P (length (requests s)) u = Inr resp \<Longrightarrow>
   localPathFor P h u (contentType resp) = Inr local \<Longrightarrow>
   saveFile P (disk s) (saved_file P local) (Bytes (buf resp)) = Inr fs \<Longrightarrow>
   downloadOne P orig h s u =
     Inr (s\<lparr>requests := requests s @ [u],
            disk := fs,
            urlToLocalPath := (urlToLocalPath s)(u \<mapsto> stored_path P local),
            toDownload := foldl set_add (toDownload s) (discovered P orig u resp)\<rparr>)"
  by (simp add: downloadOne_def Let_def discovered_def stored_path_def saved_file_def)

lemma downloadOne_thrown:
  "urlToLocalPath s u = None \<Longrightarrow> fetchWithType P (length (requests s)) u = Inr resp \<Longrightarrow>
   localPathFor P h u (contentType resp) = Inl e \<Longrightarrow> downloadOne P orig h s u = Inl e"
  by (simp add: downloadOne_def Let_def)

lemma downloadOne_unsaved:
  "urlToLocalPath s u = None \<Longrightarrow> fetchWithType P (length (requests s)) u = Inr resp \<Longrightarrow>
   localPathFor P h u (contentType resp) = Inr local \<Longrightarrow>
   saveFile P (disk s) (saved_file P local) (Bytes (buf resp)) = Inl e \<Longrightarrow>
   downloadOne P orig h s u = Inl e"
  by (simp add: downloadOne_def Let_def saved_file_def)

lemma downloadOne_cases [consumes 1, case_names skip failed saved]:
  assumes "downloadOne P orig h s u = Inr s'"
  obtains "urlToLocalPath s u \<noteq> None" "s' = s"
  | e where "urlToLocalPath s u = None" "fetchWithType P (length (requests s)) u = Inl e"
      "s' = s\<lparr>requests := requests s @ [u], warnings := warnings s @ [u]\<rparr>"
  | resp local fs where "urlToLocalPath s u = None"
      "fetchWithType P (length (requests s)) u = Inr resp"
      "localPathFor P h u (contentType resp) = Inr local"
      "s' = s\<lparr>requests := requests s @ [u],
            disk := fs,
            urlToLocalPath := (urlToLocalPath s)(u \<mapsto> stored_path P local),
            toDownload := foldl set_add (toDownload s) (discovered P orig u resp)\<rparr>"
      "saveFile P (disk s) (saved_file P local) (Bytes (buf resp)) = Inr fs"
proof (cases "urlToLocalPath s u")
  case (Some a)
  then have k: "urlToLocalPath s u \<noteq> None" by simp
  from assms[unfolded downloadOne_skip[OF k]] have "s' = s" by (rule Inr_inject[symmetric])
  with k show ?thesis by (rule that(1))
next
  case None
  show ?thesis
  proof (cases "fetchWithType P (length (requests s)) u")
    case (Inl e)
    from assms[unfolded downloadOne_failed[OF None Inl]]
    have "s' = s\<lparr>requests := requests s @ [u], warnings := warnings s @ [u]\<rparr>"
      by (rule Inr_inject[symmetric])
    with None Inl show ?thesis by (rule that(2))
  next
    case (Inr resp)
    show ?thesis
    proof (cases "localPathFor P h u (contentType resp)")
      case (Inl e)
      from assms[unfolded downloadOne_thrown[OF None Inr Inl]] show ?thesis by simp
    next
      case local: (Inr local)
      show ?thesis
      proof (cases "saveFile P (disk s) (saved_file P local) (Bytes (buf resp))")
        case (Inl e)
        from assms[unfolded downloadOne_unsaved[OF None Inr local Inl]] show ?thesis by simp
      next
        case fs: (Inr fs)
        from assms[unfolded downloadOne_saved[OF None Inr local fs]]
        have "s' = s\<lparr>requests := requests s @ [u],
              disk := fs,
              urlToLocalPath := (urlToLocalPath s)(u \<mapsto> stored_path P local),
              toDownload := foldl set_add (toDownload s) (discovered P orig u resp)\<rparr>"
          by (rule Inr_inject[symmetric])
        with None Inr local show ?thesis using fs by (rule that(3))
      qed
    qed
  qed
qed

lemma downloadOne_grows:
  assumes "downloadOne P orig h s u = Inr s'"
  shows "set (toDownload s) \<subseteq> set (toDownload s') \<and> urlToLocalPath s \<subseteq>\<^sub>m urlToLocalPath s'"
  using assms
proof (cases rule: downloadOne_cases)
  case skip
  then show ?thesis by simp
next
  case (failed e)
  then show ?thesis by simp
next
  case (saved resp local fs)
  then show ?thesis by (auto simp: foldl_set_add_set map_le_def)
qed

lemma downloadAll_grows:
  "downloadAll P orig h us s = Inr s' \<Longrightarrow>
   set (toDownload s) \<subseteq> set (toDownload s') \<and> urlToLocalPath s \<subseteq>\<^sub>m urlToLocalPath s'"
proof (induction us arbitrary: s)
  case Nil
  then show ?case by simp
next
  case (Cons u us)
  from Cons.prems obtain s1 where 1: "downloadOne P orig h s u = Inr s1"
    and 2: "downloadAll P orig h us s1 = Inr s'"
    by (auto split: sum.splits)
  from downloadOne_grows[OF 1] Cons.IH[OF 2] show ?case
    by (blast intro: map_le_trans)
qed

lemma waves_stop: "length (toDownload s) = n \<Longrightarrow> waves P orig h n s = Some (Inr s)"
  by (subst waves.simps) simp

lemma waves_thrown:
  "length (toDownload s) \<noteq> n \<Longrightarrow> downloadAll P orig h (toDownload s) s = Inl e \<Longrightarrow>
   waves P orig h n s = Some (Inl e)"
  by (subst waves.simps) simp

lemma waves_wave:
  "length (toDownload s) \<noteq> n \<Longrightarrow> downloadAll P orig h (toDownload s) s = Inr s' \<Longrightarrow>
   waves P orig h n s = waves P orig h (length (toDownload s)) s'"
  by (subst waves.simps) simp

lemma waves_induct [consumes 1, case_names stop thrown wave]:
  assumes "waves P orig h n s = Some r"
    and stop: "\<And>n s. length (toDownload s) = n \<Longrightarrow> Q n s (Inr s)"
    and thrown: "\<And>n s e. length (toDownload s) \<noteq> n \<Longrightarrow>
          downloadAll P orig h (toDownload s) s = Inl e \<Longrightarrow> Q n s (Inl e)"
    and wave: "\<And>n s s' r. length (toDownload s) \<noteq> n \<Longrightarrow>
          downloadAll P orig h (toDownload s) s = Inr s' \<Longrightarrow>
          waves P orig h (length (toDownload s)) s' = Some r \<Longrightarrow>
          Q (length (toDownload s)) s' r \<Longrightarrow> Q n s r"
  shows "Q n s r"
proof -
  define R where "R = (\<lambda>x r. case x of ((((P', orig'), h'), n), s) \<Rightarrow>
     P' = P \<and> orig' = orig \<and> h' = h \<longrightarrow> waves P orig h n s = Some r \<and> Q n s r)"
  have "R ((((P, orig), h), n), s) r"
  proof (rule waves.raw_induct[where Pa = R, OF _ assms(1)])
    fix w P' orig' h' n s r
    assume IH: "\<And>P' orig' h' n s r. w P' orig' h' n s = Some r \<Longrightarrow> R ((((P', orig'), h'), n), s) r"
      and eq: "(if length (toDownload s) \<noteq> n
                then case downloadAll P' orig' h' (toDownload s) s of
                       Inl e \<Rightarrow> Some (Inl e)
                     | Inr s' \<Rightarrow> w P' orig' h' (length (toDownload s)) s'
                else Some (Inr s)) = Some r"
    show "R ((((P', orig'), h'), n), s) r"
      unfolding R_def prod.case
    proof (intro impI)
      assume same: "P' = P \<and> orig' = orig \<and> h' = h"
      show "waves P orig h n s = Some r \<and> Q n s r"
      proof (cases "length (toDownload s) = n")
        case True
        with eq have "r = Inr s" by simp
        with True show ?thesis by (simp add: waves_stop stop)
      next
        case False
        show ?thesis
        proof (cases "downloadAll P orig h (toDownload s) s")
          case (Inl e)
          with eq False same have "r = Inl e" by simp
          with False Inl show ?thesis by (simp add: waves_thrown thrown)
        next
          case (Inr s')
          with eq False same have "w P orig h (length (toDownload s)) s' = Some r" by simp
          from IH[OF this] have
            1: "waves P orig h (length (toDownload s)) s' = Some r"
            and 2: "Q (length (toDownload s)) s' r"
            by (simp_all add: R_def)
          from wave[OF False Inr 1 2] waves_wave[OF False Inr] 1 show ?thesis by simp
        qed
      qed
    qed
  qed
  then show ?thesis by (simp add: R_def)
qed

lemma waves_grows:
  assumes "waves P orig h n s = Some (Inr s')"
  shows "set (toDownload s) \<subseteq> set (toDownload s') \<and> urlToLocalPath s \<subseteq>\<^sub>m urlToLocalPath s'"
proof -
  have "\<forall>s'. r = Inr s' \<longrightarrow>
      set (toDownload s) \<subseteq> set (toDownload s') \<and> urlToLocalPath s \<subseteq>\<^sub>m urlToLocalPath s'"
    if "waves P orig h n s = Some r" for r
    using that
  proof (induction rule: waves_induct)
    case (stop n s)
    then show ?case by simp
  next
    case (thrown n s e)
    then show ?case by simp
  next
    case (wave n s s1 r)
    from downloadAll_grows[OF wave(2)] wave(4) show ?case
      by (blast intro: map_le_trans)
  qed
  with assms show ?thesis by blast
qed

section \<open>The pool on the small site\<close>

lemma demo_fetch_a: "fetchWithType demo n url_a = Inr \<lparr>buf = ''PNG'', contentType = ''image/png''\<rparr>"
  by (simp add: fetchWithType_def demo_def demo_fetch_def url_a_def)

lemma demo_fetch_b: "fetchWithType demo n url_b = Inl (HttpError 404 url_b)"
  by (simp add: fetchWithType_def demo_def demo_fetch_def url_b_def)

lemma demo_local_a: "localPathFor demo demo_host url_a ''image/png'' = Inr ''example_test/img/a.png''"
  by code_simp

lemma demo_stored_a: "stored_path demo ''example_test/img/a.png'' = ''example_test/img/a.png''"
  by code_simp

lemma demo_saved_a: "saved_file demo ''example_test/img/a.png'' = ''/app/downloaded/example_test/img/a.png''"
  by code_simp

lemma demo_discovered_a: "discovered demo orig u \<lparr>buf = ''PNG'', contentType = ''image/png''\<rparr> = []"
  by (simp add: discovered_def)

lemma app_ancestors:
  "ancestors ''/app/downloaded/example_test''
     = [''/app'', ''/app/downloaded'', ''/app/downloaded/example_test'']"
  "ancestors ''/app/downloaded/example_test/img''
     = [''/app'', ''/app/downloaded'', ''/app/downloaded/example_test'',
        ''/app/downloaded/example_test/img'']"
  "path_dirname ''/app/downloaded/example_test/index.html'' = ''/app/downloaded/example_test''"
  "path_dirname ''/app/downloaded/example_test/img/a.png'' = ''/app/downloaded/example_test/img''"
  by code_simp+

lemma app_out_root:
  assumes "dirname P = ''/app''"
  shows "out_root P demo_host = ''/app/downloaded/example_test''"
    and "index_file P demo_host = ''/app/downloaded/example_test/index.html''"
proof -
  have "path_join [''/app'', OUTPUT_BASE, demo_host] = ''/app/downloaded/example_test''"
    by code_simp
  then show 1: "out_root P demo_host = ''/app/downloaded/example_test''"
    by (simp add: out_root_def assms)
  have "path_join [''/app/downloaded/example_test'', ''index.html'']
      = ''/app/downloaded/example_test/index.html''"
    by code_simp
  then show "index_file P demo_host = ''/app/downloaded/example_test/index.html''"
    by (simp add: index_file_def 1)
qed

lemma app_mkdir:
  assumes "dirname P = ''/app''" "files P = Map.empty" "denied P = (\<lambda>_. False)"
  shows "mkdir P (files P) (out_root P demo_host) = Inr demo_fs0"
  by (simp add: mkdir_def app_out_root[OF assms(1)] app_ancestors assms(2,3) demo_fs0_def)

lemma app_save_index:
  assumes "denied P = (\<lambda>_. False)"
  shows "saveFile P demo_fs0 ''/app/downloaded/example_test/index.html'' data
       = Inr (demo_fs0(''/app/downloaded/example_test/index.html'' \<mapsto> File data))"
    and "saveFile P demo_fs1 ''/app/downloaded/example_test/index.html'' data
       = Inr (demo_fs1(''/app/downloaded/example_test/index.html'' \<mapsto> File data))"
  by (simp_all add: saveFile_def mkdir_def app_ancestors writeFile_def demo_fs0_def demo_fs1_def assms)

lemma demo_save_a:
  "saveFile demo demo_fs0 ''/app/downloaded/example_test/img/a.png'' (Bytes ''PNG'') = Inr demo_fs1"
  by (simp add: saveFile_def mkdir_def app_ancestors writeFile_def demo_fs0_def demo_fs1_def demo_def)

lemma demo_step_a: "downloadOne demo demo_origin demo_host demo_s0 url_a = Inr demo_s1"
proof -
  have n: "urlToLocalPath demo_s0 url_a = None" by (simp add: demo_s0_def)
  have f: "fetchWithType demo (length (requests demo_s0)) url_a = Inr \<lparr>buf = ''PNG'', contentType = ''image/png''\<rparr>"
    by (rule demo_fetch_a)
  have l: "localPathFor demo demo_host url_a (contentType \<lparr>buf = ''PNG'', contentType = ''image/png''\<rparr>) = Inr ''example_test/img/a.png''"
    by (simp add: demo_local_a)
  have sv: "saveFile demo (disk demo_s0) (saved_file demo ''example_test/img/a.png'')
      (Bytes (buf \<lparr>buf = ''PNG'', contentType = ''image/png''\<rparr>)) = Inr demo_fs1"
    by (simp add: demo_saved_a demo_save_a demo_s0_def)
  show ?thesis
    unfolding downloadOne_saved[OF n f l sv]
    by (simp add: demo_stored_a demo_discovered_a demo_s0_def demo_s1_def)
qed

lemma demo_step_b: "downloadOne demo demo_origin demo_host demo_s1 url_b = Inr demo_s2"
proof -
  have n: "urlToLocalPath demo_s1 url_b = None" by (simp add: demo_s1_def url_a_def url_b_def)
  show ?thesis
    unfolding downloadOne_failed[OF n demo_fetch_b]
    by (simp add: demo_s1_def demo_s2_def)
qed

lemma demo_step_b2: "downloadOne demo demo_origin demo_host demo_s2 url_b = Inr demo_s3"
proof -
  have n: "urlToLocalPath demo_s2 url_b = None" by (simp add: demo_s2_def demo_s1_def url_a_def url_b_def)
  show ?thesis
    unfolding downloadOne_failed[OF n demo_fetch_b]
    by (simp add: demo_s1_def demo_s2_def demo_s3_def)
qed

lemma demo_skip_a: "urlToLocalPath s url_a \<noteq> None \<Longrightarrow> downloadOne demo demo_origin demo_host s url_a = Inr s"
  by (rule downloadOne_skip)

lemma demo_wave0: "downloadAll demo demo_origin demo_host [url_a, url_b] demo_s0 = Inr demo_s2"
  by (simp add: demo_step_a demo_step_b)

lemma demo_wave1: "downloadAll demo demo_origin demo_host [url_a, url_b] demo_s2 = Inr demo_s3"
proof -
  have k: "downloadOne demo demo_origin demo_host demo_s2 url_a = Inr demo_s2"
    by (rule downloadOne_skip) (simp add: demo_s2_def demo_s1_def)
  show ?thesis by (simp add: k demo_step_b2)
qed

lemma demo_loop: "waves demo demo_origin demo_host 0 demo_s2 = Some (Inr demo_s3)"
proof -
  have t2: "toDownload demo_s2 = [url_a, url_b]" by (simp add: demo_s2_def demo_s1_def)
  have t3: "toDownload demo_s3 = [url_a, url_b]" by (simp add: demo_s3_def demo_s1_def)
  have "waves demo demo_origin demo_host 0 demo_s2 = waves demo demo_origin demo_host (length (toDownload demo_s2)) demo_s3"
  proof (rule waves_wave)
    show "length (toDownload demo_s2) \<noteq> 0" by (simp add: t2)
    show "downloadAll demo demo_origin demo_host (toDownload demo_s2) demo_s2 = Inr demo_s3"
      unfolding t2 by (rule demo_wave1)
  qed
  also have "\<dots> = Some (Inr demo_s3)"
    by (rule waves_stop) (simp add: t2 t3)
  finally show ?thesis .
qed

section \<open>Facts about absolute and relative paths\<close>

lemma join_with_snoc: "xs \<noteq> [] \<Longrightarrow> join_with sep (xs @ [y]) = join_with sep xs @ sep @ y"
  by (induction sep xs rule: join_with.induct) auto

lemma join_with_append:
  "xs \<noteq> [] \<Longrightarrow> ys \<noteq> [] \<Longrightarrow> join_with sep (xs @ ys) = join_with sep xs @ sep @ join_with sep ys"
  by (induction sep xs rule: join_with.induct) (auto simp: join_with_Cons)

lemma join_split: "join_with [c] (split_on c s) = s"
proof (induction s)
  case Nil
  then show ?case by simp
next
  case (Cons a s)
  obtain y ys where ys: "split_on c s = y # ys"
    using split_on_nonempty[of c s] by (cases "split_on c s") auto
  with Cons show ?case by (auto simp: join_with_Cons split: if_splits)
qed

lemma split_on_concat:
  "split_on c (a @ c # r) = split_on c a @ split_on c r"
proof (induction a)
  case Nil
  then show ?case by simp
next
  case (Cons x a)
  obtain y ys where ys: "split_on c a = y # ys"
    using split_on_nonempty[of c a] by (cases "split_on c a") auto
  obtain z zs where zs: "split_on c r = z # zs"
    using split_on_nonempty[of c r] by (cases "split_on c r") auto
  from Cons ys zs show ?case by auto
qed

lemma split_on_join_paths:
  "args \<noteq> [] \<Longrightarrow> split_on c (join_with [c] args) = concat (map (split_on c) args)"
proof (induction args)
  case Nil
  then show ?case by simp
next
  case (Cons a args)
  show ?case
  proof (cases "args = []")
    case True
    then show ?thesis by simp
  next
    case False
    with Cons show ?thesis by (simp add: join_with_Cons split_on_concat)
  qed
qed

lemma proper_path_nonempty: "proper_path p \<Longrightarrow> p \<noteq> []"
  by (auto simp: proper_path_def proper_segment_def)

lemma proper_segment_path: "proper_segment s \<Longrightarrow> proper_path s"
  by (simp add: proper_path_def proper_segment_def split_on_single)

lemma normalizeString_paths:
  assumes "args \<noteq> []" "\<forall>a \<in> set args. proper_path a"
  shows "normalizeString (join_with [slash] args) b = concat (map (split_on slash) args)"
proof -
  have "\<forall>s \<in> set (concat (map (split_on slash) args)). proper_segment s"
    using assms(2) by (auto simp: proper_path_def list_all_iff)
  then show ?thesis
    unfolding normalizeString_def split_on_join_paths[OF assms(1)]
    by (simp add: foldl_norm_proper)
qed

lemma join_concat_split:
  assumes "args \<noteq> []"
  shows "join_with [c] (concat (map (split_on c) args)) = join_with [c] args"
proof -
  have "join_with [c] (split_on c (join_with [c] args)) = join_with [c] args" by (rule join_split)
  then show ?thesis by (simp add: split_on_join_paths[OF assms])
qed

lemma path_join_paths:
  assumes "args \<noteq> []" "\<forall>a \<in> set args. proper_path a"
  shows "path_join args = join_with [slash] args"
proof -
  let ?p = "join_with [slash] args"
  have f: "filter (\<lambda>a. a \<noteq> []) args = args"
    using assms(2) by (auto simp: filter_id_conv dest: proper_path_nonempty)
  have segs: "\<forall>s \<in> set (split_on slash ?p). proper_segment s"
    using assms(2) by (auto simp: split_on_join_paths[OF assms(1)] proper_path_def list_all_iff)
  have hd_in: "hd (split_on slash ?p) \<in> set (split_on slash ?p)"
    and last_in: "last (split_on slash ?p) \<in> set (split_on slash ?p)"
    using split_on_nonempty[of slash ?p] by simp_all
  have ne: "?p \<noteq> []"
  proof
    assume "?p = []"
    then have "split_on slash ?p = [[]]" by simp
    with segs show False by (simp add: proper_segment_def)
  qed
  have h: "hd ?p \<noteq> slash"
    using split_on_hd_sep[OF ne, of slash] segs hd_in by (auto simp: proper_segment_def)
  have l: "last ?p \<noteq> slash"
    using split_on_last_sep[OF ne, of slash] segs last_in by (auto simp: proper_segment_def)
  have q: "join_with [slash] (normalizeString ?p True) = ?p"
    by (simp add: normalizeString_paths[OF assms] join_concat_split[OF assms(1)])
  show ?thesis
    unfolding path_join_def Let_def f normalize_def using ne h l q by simp
qed

lemma absolute_dir_form:
  assumes "absolute_dir d"
  obtains r where "d = slash # r" "proper_path r"
  using assms by (auto simp: absolute_dir_def proper_path_def split: list.splits)

lemma path_join_absolute:
  assumes "proper_path r" "\<forall>a \<in> set args. proper_path a"
  shows "path_join ((slash # r) # args) = slash # join_with [slash] (r # args)"
proof -
  let ?p = "join_with [slash] (r # args)"
  have all: "\<forall>a \<in> set (r # args). proper_path a" using assms by simp
  have f: "filter (\<lambda>a. a \<noteq> []) ((slash # r) # args) = (slash # r) # args"
    using assms(2) by (auto simp: filter_id_conv dest: proper_path_nonempty)
  have j: "join_with [slash] ((slash # r) # args) = slash # ?p"
    by (simp add: join_with_Cons)
  have segs: "\<forall>s \<in> set (split_on slash ?p). proper_segment s"
    using all by (auto simp: split_on_join_paths proper_path_def list_all_iff simp del: join_with.simps)
  have last_in: "last (split_on slash ?p) \<in> set (split_on slash ?p)"
    using split_on_nonempty[of slash ?p] by simp
  have ne: "?p \<noteq> []"
  proof
    assume "?p = []"
    then have "split_on slash ?p = [[]]" by simp
    with segs show False by (simp add: proper_segment_def)
  qed
  have l: "last ?p \<noteq> slash"
    using split_on_last_sep[OF ne, of slash] segs last_in by (auto simp: proper_segment_def)
  have ns: "normalizeString (slash # ?p) False = split_on slash ?p"
    using segs by (simp add: normalizeString_def norm_step_def foldl_norm_proper)
  have q: "join_with [slash] (normalizeString (slash # ?p) False) = ?p"
    unfolding ns by (rule join_split)
  show ?thesis
    unfolding path_join_def Let_def f j normalize_def using ne l q by simp
qed

lemma resolve_segs_absolute:
  assumes "\<forall>s \<in> set (split_on slash p). proper_segment s"
  shows "resolve_segs cwd0 (slash # p) = split_on slash p"
  using assms by (simp add: resolve_segs_def normalizeString_def norm_step_def foldl_norm_proper)

lemma drop_common_prefix: "drop_common xs (xs @ ys) = ([], ys)"
proof (induction xs)
  case Nil
  show ?case by (cases ys) simp_all
next
  case (Cons a xs)
  then show ?case by simp
qed

lemma stored_path_proper:
  assumes "absolute_dir (dirname P)" "proper_path local"
  shows "path_relative (cwd P) (path_join [dirname P, OUTPUT_BASE])
           (path_join [dirname P, OUTPUT_BASE, local]) = local"
proof -
  from assms(1) obtain r where d: "dirname P = slash # r" and r: "proper_path r"
    by (rule absolute_dir_form)
  have ob: "proper_path OUTPUT_BASE"
    by (simp add: proper_path_def OUTPUT_BASE_def slash_def proper_segment_def dot_def)
  have fr: "path_join [dirname P, OUTPUT_BASE] = slash # join_with [slash] [r, OUTPUT_BASE]"
    unfolding d by (rule path_join_absolute) (use r ob in auto)
  have tp: "path_join [dirname P, OUTPUT_BASE, local] = slash # join_with [slash] [r, OUTPUT_BASE, local]"
    unfolding d by (rule path_join_absolute) (use r ob assms(2) in auto)
  have sf: "split_on slash (join_with [slash] [r, OUTPUT_BASE]) = split_on slash r @ split_on slash OUTPUT_BASE"
    using split_on_join_paths[of "[r, OUTPUT_BASE]" slash] by simp
  have st: "split_on slash (join_with [slash] [r, OUTPUT_BASE, local])
      = (split_on slash r @ split_on slash OUTPUT_BASE) @ split_on slash local"
    using split_on_join_paths[of "[r, OUTPUT_BASE, local]" slash] by simp
  have pf: "\<forall>s \<in> set (split_on slash (join_with [slash] [r, OUTPUT_BASE])). proper_segment s"
    unfolding sf using r ob by (auto simp: proper_path_def list_all_iff)
  have pt: "\<forall>s \<in> set (split_on slash (join_with [slash] [r, OUTPUT_BASE, local])). proper_segment s"
    unfolding st using r ob assms(2) by (auto simp: proper_path_def list_all_iff)
  have neq: "slash # join_with [slash] [r, OUTPUT_BASE] \<noteq> slash # join_with [slash] [r, OUTPUT_BASE, local]"
  proof
    assume "slash # join_with [slash] [r, OUTPUT_BASE] = slash # join_with [slash] [r, OUTPUT_BASE, local]"
    then have "split_on slash (join_with [slash] [r, OUTPUT_BASE])
        = split_on slash (join_with [slash] [r, OUTPUT_BASE, local])" by simp
    then show False unfolding sf st using split_on_nonempty[of slash local] by simp
  qed
  have dc: "drop_common (split_on slash r @ split_on slash OUTPUT_BASE)
      (split_on slash r @ split_on slash OUTPUT_BASE @ split_on slash local)
    = ([], split_on slash local)"
    using drop_common_prefix[of "split_on slash r @ split_on slash OUTPUT_BASE" "split_on slash local"]
    by simp
  show ?thesis
    unfolding path_relative_def fr tp
    using neq
    by (simp add: resolve_segs_absolute[OF pf] resolve_segs_absolute[OF pt] sf st dc
        join_split del: join_with.simps)
qed










section \<open>Invariants of the pool and the shape of a run\<close>

lemma downloadAll_invariant:
  assumes step: "\<forall>s u s'. I s \<longrightarrow> u \<in> set (toDownload s) \<longrightarrow>
                   downloadOne P orig h s u = Inr s' \<longrightarrow> I s'"
    and "I s" "set us \<subseteq> set (toDownload s)" "downloadAll P orig h us s = Inr s'"
  shows "I s'"
  using assms(2-)
proof (induction us arbitrary: s)
  case Nil
  then show ?case by simp
next
  case (Cons u us)
  from Cons.prems(3) obtain s1 where 1: "downloadOne P orig h s u = Inr s1"
    and 2: "downloadAll P orig h us s1 = Inr s'"
    by (auto split: sum.splits)
  from Cons.prems(2) have u: "u \<in> set (toDownload s)" by simp
  have "I s1" using step Cons.prems(1) u 1 by blast
  moreover have "set us \<subseteq> set (toDownload s1)"
    using Cons.prems(2) downloadOne_grows[OF 1] by auto
  ultimately show ?case using 2 by (rule Cons.IH)
qed

lemma waves_invariant:
  assumes step: "\<forall>s u s'. I s \<longrightarrow> u \<in> set (toDownload s) \<longrightarrow>
                   downloadOne P orig h s u = Inr s' \<longrightarrow> I s'"
    and "I s" "waves P orig h n s = Some (Inr s')"
  shows "I s'"
proof -
  have "I s \<longrightarrow> (\<forall>s'. r = Inr s' \<longrightarrow> I s')" if "waves P orig h n s = Some r" for r
    using that
  proof (induction rule: waves_induct)
    case (stop n s)
    then show ?case by simp
  next
    case (thrown n s e)
    then show ?case by simp
  next
    case (wave n s s1 r)
    show ?case
    proof (intro impI)
      assume i: "I s"
      have "I s1"
        by (rule downloadAll_invariant[OF step i _ wave(2)]) simp
      with wave(4) show "\<forall>s'. r = Inr s' \<longrightarrow> I s'" by simp
    qed
  qed
  with assms(2,3) show ?thesis by blast
qed

lemma run_completed [consumes 1, case_names completed]:
  assumes "run P urlInput = Some (Inr (s, d))"
  obtains parsed start fs0 htmlRes s1 s2 fs where
    "new_URL P urlInput None = Some parsed"
    "new_URL P (href parsed) None = Some start"
    "fetchWithType P 0 (href parsed) = Inr htmlRes"
    "downloadAll P (origin start) (hostToken (hostname start))
        (toDownload (initial P fs0 (href parsed) (origin start) (page P htmlRes)))
        (initial P fs0 (href parsed) (origin start) (page P htmlRes)) = Inr s1"
    "waves P (origin start) (hostToken (hostname start)) 0 s1 = Some (Inr s2)"
    "d = rewrite P (hostToken (hostname start)) (href parsed) (urlToLocalPath s2) (page P htmlRes)"
    "s = s2\<lparr>disk := fs\<rparr>"
    "mkdir P (files P) (out_root P (hostToken (hostname start))) = Inr fs0"
    "saveFile P (disk s2) (index_file P (hostToken (hostname start))) (Text (cheerio_html P d)) = Inr fs"
  using assms
  unfolding run_def initial_def index_file_def out_root_def page_def Let_def
  by (auto split: option.splits sum.splits)

section \<open>Facts about the stored local paths\<close>

lemma proper_path_join:
  assumes "args \<noteq> []" "\<forall>a \<in> set args. proper_path a"
  shows "proper_path (join_with [slash] args)"
  using assms by (auto simp: proper_path_def split_on_join_paths list_all_iff)

lemma hostToken_proper:
  assumes "h \<noteq> []" "slash \<notin> set h"
  shows "proper_segment (hostToken h)"
proof -
  have "dot \<notin> set (hostToken h)"
    by (auto simp: hostToken_def dot_def underscore_def)
  then have "hostToken h \<noteq> [dot]" "hostToken h \<noteq> [dot, dot]" by auto
  moreover have "slash \<notin> set (hostToken h)"
    using assms(2) by (auto simp: hostToken_def slash_def underscore_def dot_def)
  moreover have "hostToken h \<noteq> []" using assms(1) by (simp add: hostToken_def)
  ultimately show ?thesis by (simp add: proper_segment_def)
qed

lemma hostToken_no_backslash: "backslash \<notin> set h \<Longrightarrow> backslash \<notin> set (hostToken h)"
  by (auto simp: hostToken_def backslash_def underscore_def)

lemma replace_backslash_free: "backslash \<notin> set (replace_backslash p)"
  by (auto simp: replace_backslash_def backslash_def slash_def)

lemma replace_backslash_append:
  "replace_backslash (a @ b) = replace_backslash a @ replace_backslash b"
  by (simp add: replace_backslash_def)

lemma replace_backslash_id: "backslash \<notin> set a \<Longrightarrow> replace_backslash a = a"
  by (induction a) (auto simp: replace_backslash_def backslash_def)

lemma derived_path_proper:
  assumes "proper_segment token" "basename path \<notin> {[dot], [dot, dot]}"
  shows "proper_path (derived_path token path (derived_extension path ct))"
proof -
  let ?ext = "derived_extension path ct"
  let ?name = "derived_name path ?ext"
  let ?sub = "chooseSubdirByExt ?ext"
  have pn: "proper_segment ?name"
    by (rule derived_name_proper[OF assms(2), where ct = ct]) (simp add: derived_extension_def)
  show ?thesis
  proof (cases "?sub = []")
    case True
    then have "derived_path token path ?ext = join_with [slash] [token, ?name]"
      by (simp add: derived_path_def subdir_spec slash_def)
    moreover have "proper_path (join_with [slash] [token, ?name])"
      by (rule proper_path_join) (use assms(1) pn in \<open>auto intro: proper_segment_path\<close>)
    ultimately show ?thesis by simp
  next
    case False
    then have ps: "proper_segment ?sub" by (rule subdir_proper)
    from False have "derived_path token path ?ext = join_with [slash] [token, ?sub, ?name]"
      by (simp add: derived_path_def subdir_spec slash_def)
    moreover have "proper_path (join_with [slash] [token, ?sub, ?name])"
      by (rule proper_path_join) (use assms(1) pn ps in \<open>auto intro: proper_segment_path\<close>)
    ultimately show ?thesis by simp
  qed
qed

lemma stored_path_value:
  assumes "absolute_dir (dirname P)" "proper_segment token"
    and "new_URL P u None = Some x" "basename (pathname x) \<notin> {[dot], [dot, dot]}"
    and "localPathFor P token u ct = Inr local"
  shows "stored_path P local = replace_backslash local"
proof -
  from localPathFor_segments[OF assms(3,2,4), of ct] assms(5)
  have l: "local = derived_path token (pathname x) (derived_extension (pathname x) ct)" by simp
  have "proper_path local" unfolding l by (rule derived_path_proper[OF assms(2,4)])
  from stored_path_proper[OF assms(1) this] show ?thesis
    by (simp add: stored_path_def)
qed

lemma downloadOne_host_rooted:
  assumes "absolute_dir (dirname P)" "proper_segment token"
    and "\<forall>u p x. urlToLocalPath s u = Some p \<longrightarrow> new_URL P u None = Some x \<longrightarrow>
           basename (pathname x) \<notin> {[dot], [dot, dot]} \<longrightarrow> host_rooted P token u p"
    and "downloadOne P orig token s v = Inr s'"
  shows "\<forall>u p x. urlToLocalPath s' u = Some p \<longrightarrow> new_URL P u None = Some x \<longrightarrow>
           basename (pathname x) \<notin> {[dot], [dot, dot]} \<longrightarrow> host_rooted P token u p"
  using assms(4)
proof (cases rule: downloadOne_cases)
  case skip
  with assms(3) show ?thesis by simp
next
  case (failed e)
  with assms(3) show ?thesis by simp
next
  case (saved resp local fs)
  have "host_rooted P token v (stored_path P local)"
    if "new_URL P v None = Some x" "basename (pathname x) \<notin> {[dot], [dot, dot]}" for x
    unfolding host_rooted_def
    using stored_path_value[OF assms(1,2) that saved(3)] saved(3) by blast
  with assms(3) saved(4) show ?thesis by auto
qed

lemma host_rooted_shape:
  assumes "host_rooted P token u p" "proper_segment token" "backslash \<notin> set token"
    and "new_URL P u None = Some x" "basename (pathname x) \<notin> {[dot], [dot, dot]}"
  shows "(\<exists>rest. p = token @ ''/'' @ rest) \<and> backslash \<notin> set p \<and> hd p \<noteq> slash"
proof -
  from assms(1)[unfolded host_rooted_def] obtain ct local where
    l: "localPathFor P token u ct = Inr local" and p0: "p = replace_backslash local"
    by blast
  from localPathFor_segments[OF assms(4,2,5), of ct] l
  have p: "p = replace_backslash (derived_path token (pathname x) (derived_extension (pathname x) ct))"
    by (simp add: p0)
  have 1: "p = token @ ''/'' @ replace_backslash
      ((if chooseSubdirByExt (derived_extension (pathname x) ct) = [] then []
        else chooseSubdirByExt (derived_extension (pathname x) ct) @ ''/'')
       @ derived_name (pathname x) (derived_extension (pathname x) ct))"
    unfolding p derived_path_def
    by (simp add: replace_backslash_append replace_backslash_id[OF assms(3)])
       (simp add: replace_backslash_def)
  have 2: "backslash \<notin> set p" unfolding p by (rule replace_backslash_free)
  have tne: "token \<noteq> []" using assms(2) by (simp add: proper_segment_def)
  have "hd token \<noteq> slash"
  proof
    assume "hd token = slash"
    with hd_in_set[OF tne] have "slash \<in> set token" by metis
    with assms(2) show False by (simp add: proper_segment_def)
  qed
  note tne this
  with 1 have 3: "hd p \<noteq> slash" by simp
  from 1 2 3 show ?thesis by blast
qed

lemma run_map_values:
  assumes "run P urlInput = Some (Inr (s, d))"
    and "new_URL P urlInput None = Some parsed" "new_URL P (href parsed) None = Some start"
    and "hostname start \<noteq> []" "slash \<notin> set (hostname start)"
    and "absolute_dir (dirname P)"
    and "urlToLocalPath s u = Some p"
    and "new_URL P u None = Some x" "basename (pathname x) \<notin> {[dot], [dot, dot]}"
  shows "host_rooted P (hostToken (hostname start)) u p"
proof -
  let ?token = "hostToken (hostname start)"
  let ?I = "\<lambda>s. \<forall>u p x. urlToLocalPath s u = Some p \<longrightarrow> new_URL P u None = Some x \<longrightarrow>
           basename (pathname x) \<notin> {[dot], [dot, dot]} \<longrightarrow> host_rooted P ?token u p"
  have tok: "proper_segment ?token" by (rule hostToken_proper[OF assms(4,5)])
  have step: "\<forall>s v s'. ?I s \<longrightarrow> v \<in> set (toDownload s) \<longrightarrow>
      downloadOne P (origin start) ?token s v = Inr s' \<longrightarrow> ?I s'"
    using downloadOne_host_rooted[OF assms(6) tok] by blast
  from assms(1) show ?thesis
  proof (cases rule: run_completed)
    case (completed parsed' start' fs0 htmlRes s1 s2 fs)
    from completed(1,2) assms(2,3) have e: "parsed' = parsed" "start' = start" by simp_all
    have "?I (initial P fs0 (href parsed) (origin start) (page P htmlRes))"
      by (simp add: initial_def)
    then have "?I s1"
      by (rule downloadAll_invariant[where I = ?I, OF step _ _ completed(4)[unfolded e]]) simp
    then have "?I s2"
      by (rule waves_invariant[where I = ?I, OF step _ completed(5)[unfolded e]])
    with assms(7,8,9) completed(7) show ?thesis by simp
  qed
qed

lemma out_root_path:
  assumes "absolute_dir (dirname P)" "proper_segment token"
  shows "out_root P token = dirname P @ ''/'' @ OUTPUT_BASE @ ''/'' @ token"
proof -
  from assms(1) obtain r where d: "dirname P = slash # r" and r: "proper_path r"
    by (rule absolute_dir_form)
  have ob: "proper_path OUTPUT_BASE"
    by (simp add: proper_path_def OUTPUT_BASE_def slash_def proper_segment_def dot_def)
  have tk: "proper_path token" using assms(2) by (rule proper_segment_path)
  have 1: "path_join [dirname P, OUTPUT_BASE, token] = slash # join_with [slash] [r, OUTPUT_BASE, token]"
    unfolding d by (rule path_join_absolute) (use r ob tk in auto)
  show ?thesis unfolding out_root_def 1 by (simp add: d slash_def)
qed

lemma index_file_path:
  assumes "absolute_dir (dirname P)" "proper_segment token"
  shows "index_file P token = dirname P @ ''/'' @ OUTPUT_BASE @ ''/'' @ token @ ''/index.html''"
proof -
  from assms(1) obtain r where d: "dirname P = slash # r" and r: "proper_path r"
    by (rule absolute_dir_form)
  have ob: "proper_path OUTPUT_BASE"
    by (simp add: proper_path_def OUTPUT_BASE_def slash_def proper_segment_def dot_def)
  have ix: "proper_path ''index.html''"
    by (simp add: proper_path_def slash_def proper_segment_def dot_def)
  have tk: "proper_path token" using assms(2) by (rule proper_segment_path)
  have 1: "path_join [dirname P, OUTPUT_BASE, token] = slash # join_with [slash] [r, OUTPUT_BASE, token]"
    unfolding d by (rule path_join_absolute) (use r ob tk in auto)
  have 2: "proper_path (join_with [slash] [r, OUTPUT_BASE, token])"
    by (rule proper_path_join) (use r ob tk in auto)
  have 3: "path_join [slash # join_with [slash] [r, OUTPUT_BASE, token], ''index.html'']
      = slash # join_with [slash] [join_with [slash] [r, OUTPUT_BASE, token], ''index.html'']"
    by (rule path_join_absolute) (use 2 ix in auto)
  show ?thesis
    unfolding index_file_def out_root_def 1 3 by (simp add: d slash_def)
qed

section \<open>The run on the small site\<close>

lemma demo_seed: "new_URL demo ''https://example.test/'' None = Some (mk_url ''example.test'' ''/'')"
  by (simp add: demo_def demo_URL_def)

lemma demo_seed_fields:
  "href (mk_url ''example.test'' ''/'') = ''https://example.test/''"
  "origin (mk_url ''example.test'' ''/'') = demo_origin"
  "hostToken (hostname (mk_url ''example.test'' ''/'')) = demo_host"
  by (simp_all add: mk_url_def demo_origin_def demo_host_def hostToken_def dot_def underscore_def)

lemma demo_seed_fetch:
  "fetchWithType demo 0 ''https://example.test/'' = Inr \<lparr>buf = ''<img>'', contentType = ''text/html''\<rparr>"
  by (simp add: fetchWithType_def demo_def demo_fetch_def)

lemma demo_load: "page demo r = demo_doc"
  by (simp add: page_def demo_def)

lemma demo_collect:
  "new_Set (collectAndRewriteHtml demo demo_doc ''https://example.test/'' True demo_origin) = [url_a, url_b]"
  by code_simp

lemma demo_initial:
  "initial demo demo_fs0 ''https://example.test/'' demo_origin demo_doc = demo_s0"
  by (simp add: initial_def demo_collect demo_s0_def)

lemma demo_rewrite:
  "rewrite demo demo_host ''https://example.test/'' (urlToLocalPath demo_s3) demo_doc = demo_out"
  by code_simp

lemma demo_index: "index_file demo demo_host = ''/app/downloaded/example_test/index.html''"
  by (rule app_out_root) (simp add: demo_def)

lemma demo_mkdir: "mkdir demo (files demo) (out_root demo demo_host) = Inr demo_fs0"
  by (rule app_mkdir) (simp_all add: demo_def)

lemma demo_save_index:
  "saveFile demo demo_fs1 ''/app/downloaded/example_test/index.html'' data
     = Inr (demo_fs1(''/app/downloaded/example_test/index.html'' \<mapsto> File data))"
  by (rule app_save_index) (simp add: demo_def)

lemma run_unfold:
  assumes "new_URL P urlInput None = Some parsed"
    and "new_URL P (href parsed) None = Some start"
    and "mkdir P (files P) (out_root P (hostToken (hostname start))) = Inr fs0"
    and "fetchWithType P 0 (href parsed) = Inr htmlRes"
    and "downloadAll P (origin start) (hostToken (hostname start))
        (toDownload (initial P fs0 (href parsed) (origin start) (page P htmlRes)))
        (initial P fs0 (href parsed) (origin start) (page P htmlRes)) = Inr s1"
    and "waves P (origin start) (hostToken (hostname start)) 0 s1 = Some (Inr s2)"
    and "saveFile P (disk s2) (index_file P (hostToken (hostname start)))
           (Text (cheerio_html P (rewrite P (hostToken (hostname start)) (href parsed)
              (urlToLocalPath s2) (page P htmlRes)))) = Inr fs"
  shows "run P urlInput =
     Some (Inr (s2\<lparr>disk := fs\<rparr>,
                rewrite P (hostToken (hostname start)) (href parsed) (urlToLocalPath s2)
                  (page P htmlRes)))"
  using assms(3,5,6,7)
  unfolding run_def initial_def index_file_def out_root_def page_def Let_def assms(1,2,4)
    option.case sum.case
  by simp

lemma demo_run: "run demo ''https://example.test/'' = Some (Inr (demo_final, demo_out))"
proof -
  have a: "new_URL demo (href (mk_url ''example.test'' ''/'')) None = Some (mk_url ''example.test'' ''/'')"
    by (simp add: demo_seed_fields demo_seed)
  have m: "mkdir demo (files demo) (out_root demo (hostToken (hostname (mk_url ''example.test'' ''/''))))
      = Inr demo_fs0"
    by (simp add: demo_seed_fields demo_mkdir)
  have f: "fetchWithType demo 0 (href (mk_url ''example.test'' ''/''))
      = Inr \<lparr>buf = ''<img>'', contentType = ''text/html''\<rparr>"
    by (simp add: demo_seed_fields demo_seed_fetch)
  have t0: "toDownload demo_s0 = [url_a, url_b]" by (simp add: demo_s0_def)
  have w0: "downloadAll demo (origin (mk_url ''example.test'' ''/''))
      (hostToken (hostname (mk_url ''example.test'' ''/'')))
      (toDownload (initial demo demo_fs0 (href (mk_url ''example.test'' ''/''))
         (origin (mk_url ''example.test'' ''/'')) (page demo \<lparr>buf = ''<img>'', contentType = ''text/html''\<rparr>)))
      (initial demo demo_fs0 (href (mk_url ''example.test'' ''/''))
         (origin (mk_url ''example.test'' ''/'')) (page demo \<lparr>buf = ''<img>'', contentType = ''text/html''\<rparr>))
      = Inr demo_s2"
    unfolding demo_seed_fields demo_load demo_initial t0 by (rule demo_wave0)
  have w: "waves demo (origin (mk_url ''example.test'' ''/''))
      (hostToken (hostname (mk_url ''example.test'' ''/''))) 0 demo_s2 = Some (Inr demo_s3)"
    by (simp add: demo_seed_fields demo_loop)
  have d3: "disk demo_s3 = demo_fs1" by (simp add: demo_s3_def demo_s1_def)
  have sv: "saveFile demo (disk demo_s3)
      (index_file demo (hostToken (hostname (mk_url ''example.test'' ''/''))))
      (Text (cheerio_html demo (rewrite demo (hostToken (hostname (mk_url ''example.test'' ''/'')))
         (href (mk_url ''example.test'' ''/'')) (urlToLocalPath demo_s3)
         (page demo \<lparr>buf = ''<img>'', contentType = ''text/html''\<rparr>))))
      = Inr (demo_fs1(''/app/downloaded/example_test/index.html'' \<mapsto> File (Text (demo_html demo_out))))"
    unfolding demo_seed_fields demo_load demo_rewrite demo_index d3 demo_save_index
    by (simp add: demo_def)
  show ?thesis
    unfolding run_unfold[OF demo_seed a m f w0 w sv]
    by (simp add: demo_seed_fields demo_load demo_rewrite demo_final_def)
qed

lemma demo_seed_again:
  "new_URL demo (href (mk_url ''example.test'' ''/'')) None = Some (mk_url ''example.test'' ''/'')"
  by (simp add: demo_seed_fields demo_seed)

lemma demo_dir: "absolute_dir (dirname demo)"
  by code_simp

lemma demo_hostname:
  "hostname (mk_url ''example.test'' ''/'') \<noteq> []"
  "slash \<notin> set (hostname (mk_url ''example.test'' ''/''))"
  "backslash \<notin> set (hostname (mk_url ''example.test'' ''/''))"
  by (simp_all add: mk_url_def slash_def backslash_def)

lemma run_page:
  assumes "run P urlInput = Some (Inr (s, d))"
    and "new_URL P urlInput None = Some parsed"
    and "new_URL P (href parsed) None = Some start"
  shows "disk s (index_file P (hostToken (hostname start))) = Some (File (Text (cheerio_html P d)))
    \<and> (\<exists>htmlRes. fetchWithType P 0 (href parsed) = Inr htmlRes
          \<and> d = rewrite P (hostToken (hostname start)) (href parsed) (urlToLocalPath s)
                  (page P htmlRes))"
  using assms(1)
proof (cases rule: run_completed)
  case (completed parsed' start' fs0 htmlRes s1 s2 fs)
  from completed(1,2) assms(2,3) have e: "parsed' = parsed" "start' = start" by simp_all
  from saveFile_written[OF completed(9)] completed(3,6,7) show ?thesis unfolding e by auto
qed

section \<open>Termination of the loop\<close>








section \<open>What the loop has resolved when it stops\<close>

lemma new_Set_set: "set (new_Set xs) = set xs"
  by (simp add: new_Set_def foldl_set_add_set)









section \<open>The site with style sheets\<close>



lemma site_seed_fields:
  "href (mk_url ''example.test'' ''/'') = site_seed"
  "origin (mk_url ''example.test'' ''/'') = demo_origin"
  by (simp_all add: mk_url_def site_seed_def demo_origin_def)



















section \<open>Facts about the Rewriter and the origin filter\<close>

lemma map_of_attr_set: "map_of (attr_set k v ps) a = (if a = k then Some v else map_of ps a)"
  by (induction k v ps rule: attr_set.induct) auto

lemma attr_set_same: "map_of ps k = Some v \<Longrightarrow> attr_set k v ps = ps"
  by (induction k v ps rule: attr_set.induct) (auto split: if_splits)

lemma rewrite_is_map: "rewrite P h su m doc = map (rewrite_element P h su m) doc"
proof -
  have "foldl (rewrite_pass P h su m) doc sas
      = map (\<lambda>el. foldl (\<lambda>e sa. case sa of (selector, attr) \<Rightarrow>
              if matches selector e then rewrite_el P h su m attr e else e) el sas) doc" for sas
  proof (induction sas arbitrary: doc)
    case Nil
    then show ?case by simp
  next
    case (Cons sa sas)
    show ?case
      by (simp add: Cons.IH) (simp add: rewrite_pass_def split: prod.splits)
  qed
  then show ?thesis by (simp add: rewrite_def rewrite_element_def)
qed

lemma rewrite_el_other:
  assumes "a \<noteq> attr"
  shows "map_of (attrs (rewrite_el P h su m attr el)) a = map_of (attrs el) a"
proof (cases "map_of (attrs el) attr")
  case None
  then show ?thesis by (simp add: rewrite_el_def)
next
  case (Some val)
  show ?thesis
  proof (cases "rewrite_plain P h su m val")
    case None
    with Some assms show ?thesis by (auto simp: rewrite_el_def map_of_attr_set)
  next
    case (Some v)
    with \<open>map_of (attrs el) attr = Some val\<close> assms show ?thesis
      by (auto simp: rewrite_el_def map_of_attr_set)
  qed
qed

lemma rewrite_el_plain_none:
  assumes "attr \<noteq> ''srcset''" "map_of (attrs el) attr = Some val"
    and "val \<noteq> [] \<longrightarrow> rewrite_plain P h su m val = None"
  shows "rewrite_el P h su m attr el = el"
  using assms by (simp add: rewrite_el_def)

lemma rewrite_element_keeps:
  assumes "a \<noteq> ''srcset''" "map_of (attrs el) a = Some val"
    and "val \<noteq> [] \<longrightarrow> rewrite_plain P h su m val = None"
  shows "map_of (attrs (rewrite_element P h su m el)) a = Some val"
proof -
  have "map_of (attrs (foldl (\<lambda>e sa. case sa of (selector, attr) \<Rightarrow>
              if matches selector e then rewrite_el P h su m attr e else e) el sas)) a = Some val"
    if "map_of (attrs el) a = Some val" for sas el
    using that
  proof (induction sas arbitrary: el)
    case Nil
    then show ?case by simp
  next
    case (Cons sa sas)
    obtain sel attr where sa: "sa = (sel, attr)" by (cases sa)
    have "map_of (attrs (if matches sel el then rewrite_el P h su m attr el else el)) a = Some val"
    proof (cases "attr = a")
      case True
      with assms(1,3) Cons.prems have "rewrite_el P h su m attr el = el"
        by (intro rewrite_el_plain_none) auto
      with Cons.prems show ?thesis by simp
    next
      case False
      then have "a \<noteq> attr" by simp
      with Cons.prems show ?thesis by (simp add: rewrite_el_other)
    qed
    from Cons.IH[OF this] show ?case by (simp add: sa)
  qed
  from this[OF assms(2)] show ?thesis by (simp add: rewrite_element_def)
qed

lemma collect_one_same_origin:
  assumes "u \<in> set (case new_URL P v (Some base) of None \<Rightarrow> []
                     | Some x \<Rightarrow> if True \<and> origin x \<noteq> orig then [] else [href x])"
  shows "\<exists>x. new_URL P v (Some base) = Some x \<and> origin x = orig \<and> u = href x"
  using assms by (cases "new_URL P v (Some base)") (auto split: if_splits)

lemma collect_el_same_origin:
  assumes "u \<in> set (collect_el P base True orig attr el)"
  shows "\<exists>v x. new_URL P v (Some base) = Some x \<and> origin x = orig \<and> u = href x"
proof (cases "map_of (attrs el) attr")
  case None
  with assms show ?thesis by (simp add: collect_el_def)
next
  case (Some val)
  show ?thesis
  proof (cases "val = []")
    case True
    with Some assms show ?thesis by (simp add: collect_el_def)
  next
    case False
    show ?thesis
    proof (cases "attr = ''srcset''")
      case True
      with Some False assms obtain v where
        "u \<in> set (case new_URL P v (Some base) of None \<Rightarrow> []
                   | Some x \<Rightarrow> if True \<and> origin x \<noteq> orig then [] else [href x])"
        by (auto simp: collect_el_def)
      from collect_one_same_origin[OF this] show ?thesis by blast
    next
      case no: False
      with Some False assms have
        "u \<in> set (case new_URL P val (Some base) of None \<Rightarrow> []
                   | Some x \<Rightarrow> if True \<and> origin x \<noteq> orig then [] else [href x])"
        by (simp add: collect_el_def)
      from collect_one_same_origin[OF this] show ?thesis by blast
    qed
  qed
qed

lemma collect_same_origin:
  assumes "u \<in> set (collectAndRewriteHtml P doc base True orig)"
  shows "\<exists>v x. new_URL P v (Some base) = Some x \<and> origin x = orig \<and> u = href x"
  using assms by (auto simp: collectAndRewriteHtml_def dest: collect_el_same_origin)

lemma initial_confined:
  assumes "roundtrip P"
  shows "confined P orig su (initial P fs su orig doc)"
proof -
  have "same_origin P orig u" if "u \<in> set (collectAndRewriteHtml P doc su True orig)" for u
  proof -
    from collect_same_origin[OF that] obtain v x where
      "new_URL P v (Some su) = Some x" "origin x = orig" "u = href x" by blast
    with assms show ?thesis unfolding roundtrip_def same_origin_def by blast
  qed
  then show ?thesis by (auto simp: confined_def initial_def new_Set_set)
qed

lemma discovered_same_origin: "v \<in> set (discovered P orig u resp) \<Longrightarrow> same_origin P orig v"
  by (auto simp: discovered_def same_origin_urls_def same_origin_def split: if_splits option.splits)

lemma downloadOne_confined:
  assumes "confined P orig su s" "u \<in> set (toDownload s)" "downloadOne P orig h s u = Inr s'"
  shows "confined P orig su s'"
  using assms(3)
proof (cases rule: downloadOne_cases)
  case skip
  with assms(1) show ?thesis by simp
next
  case (failed e)
  with assms(1,2) show ?thesis by (auto simp: confined_def)
next
  case (saved resp local fs)
  with assms(1,2) show ?thesis
    by (auto simp: confined_def foldl_set_add_set dest: discovered_same_origin)
qed

lemma run_confined:
  assumes "run P urlInput = Some (Inr (s, d))"
    and "new_URL P urlInput None = Some parsed" "new_URL P (href parsed) None = Some start"
    and "roundtrip P"
  shows "confined P (origin start) (href parsed) s"
  using assms(1)
proof (cases rule: run_completed)
  case (completed parsed' start' fs0 htmlRes s1 s2 fs)
  from completed(1,2) assms(2,3) have e: "parsed' = parsed" "start' = start" by simp_all
  let ?I = "confined P (origin start) (href parsed)"
  have step: "\<forall>s u s'. ?I s \<longrightarrow> u \<in> set (toDownload s) \<longrightarrow>
      downloadOne P (origin start) (hostToken (hostname start)) s u = Inr s' \<longrightarrow> ?I s'"
    using downloadOne_confined by blast
  have "?I (initial P fs0 (href parsed) (origin start) (page P htmlRes))"
    by (rule initial_confined[OF assms(4)])
  then have "?I s1"
    by (rule downloadAll_invariant[OF step _ _ completed(4)[unfolded e]]) simp
  then have "?I s2"
    by (rule waves_invariant[OF step _ completed(5)[unfolded e]])
  with completed(7) show ?thesis by (simp add: confined_def)
qed

lemma off_origin_not_in_set:
  assumes "roundtrip P" "new_URL P ref b = Some x" "origin x \<noteq> orig"
  shows "\<not> same_origin P orig (href x)"
  using assms unfolding roundtrip_def same_origin_def by auto

section \<open>References to another origin\<close>

lemma rewrite_entry_unresolved:
  assumes "new_URL P (first_word entry) (Some su) = Some x" "m (href x) = None"
  shows "rewrite_entry P su m entry = first_word entry @ descriptor_suffix entry"
proof -
  have u: "(case take 2 (split_ws entry) of [] \<Rightarrow> [] | w # _ \<Rightarrow> w) = first_word entry"
    by (cases "split_ws entry") (simp_all add: first_word_def)
  have d: "(if (case take 2 (split_ws entry) of _ # d # _ \<Rightarrow> d | _ \<Rightarrow> []) \<noteq> []
            then '' '' @ (case take 2 (split_ws entry) of _ # d # _ \<Rightarrow> d | _ \<Rightarrow> []) else [])
      = descriptor_suffix entry"
    by (cases "split_ws entry"; cases "tl (split_ws entry)") (auto simp: descriptor_suffix_def)
  show ?thesis
    unfolding rewrite_entry_def Let_def u d using assms by simp
qed

lemma offsite_seed: "new_URL offsite site_seed None = Some (mk_url ''example.test'' ''/'')"
  by (simp add: offsite_def offsite_URL_def)

lemma offsite_fetch:
  "fetchWithType offsite n u = Inr \<lparr>buf = ''<script><img>'', contentType = ''text/html''\<rparr>"
  by (simp add: fetchWithType_def offsite_def)

lemma offsite_collect:
  "collectAndRewriteHtml offsite offsite_doc site_seed True demo_origin = []"
  by code_simp

lemma offsite_rewrite: "rewrite offsite demo_host site_seed Map.empty offsite_doc = offsite_out"
  by code_simp

lemma offsite_index: "index_file offsite demo_host = ''/app/downloaded/example_test/index.html''"
  by (rule app_out_root) (simp add: offsite_def)

lemma offsite_run: "run offsite site_seed = Some (Inr (offsite_final, offsite_out))"
proof -
  let ?r = "\<lparr>buf = ''<script><img>'', contentType = ''text/html''\<rparr>"
  let ?s = "\<lparr>toDownload = [], urlToLocalPath = Map.empty, disk = demo_fs0,
         requests = [site_seed], warnings = []\<rparr>"
  have a: "new_URL offsite (href (mk_url ''example.test'' ''/'')) None = Some (mk_url ''example.test'' ''/'')"
    by (simp add: site_seed_fields offsite_seed)
  have m: "mkdir offsite (files offsite) (out_root offsite (hostToken (hostname (mk_url ''example.test'' ''/''))))
      = Inr demo_fs0"
    unfolding demo_seed_fields by (rule app_mkdir) (simp_all add: offsite_def)
  have f: "fetchWithType offsite 0 (href (mk_url ''example.test'' ''/'')) = Inr ?r"
    by (rule offsite_fetch)
  have l: "page offsite r = offsite_doc" for r by (simp add: page_def offsite_def)
  have i: "initial offsite demo_fs0 site_seed demo_origin offsite_doc = ?s"
    by (simp add: initial_def offsite_collect new_Set_def)
  have w0: "downloadAll offsite (origin (mk_url ''example.test'' ''/''))
      (hostToken (hostname (mk_url ''example.test'' ''/'')))
      (toDownload (initial offsite demo_fs0 (href (mk_url ''example.test'' ''/''))
         (origin (mk_url ''example.test'' ''/'')) (page offsite ?r)))
      (initial offsite demo_fs0 (href (mk_url ''example.test'' ''/''))
         (origin (mk_url ''example.test'' ''/'')) (page offsite ?r))
      = Inr ?s"
    by (simp add: site_seed_fields l i)
  have w: "waves offsite (origin (mk_url ''example.test'' ''/''))
      (hostToken (hostname (mk_url ''example.test'' ''/''))) 0 ?s = Some (Inr ?s)"
    by (rule waves_stop) simp
  have sv: "saveFile offsite (disk ?s)
      (index_file offsite (hostToken (hostname (mk_url ''example.test'' ''/''))))
      (Text (cheerio_html offsite (rewrite offsite (hostToken (hostname (mk_url ''example.test'' ''/'')))
         (href (mk_url ''example.test'' ''/'')) (urlToLocalPath ?s) (page offsite ?r))))
      = Inr (demo_fs0(''/app/downloaded/example_test/index.html'' \<mapsto> File (Text (demo_html offsite_out))))"
  proof -
    have d: "denied offsite = (\<lambda>_. False)" by (simp add: offsite_def)
    have h: "cheerio_html offsite = demo_html" by (simp add: offsite_def)
    show ?thesis
      by (simp add: demo_seed_fields(3) site_seed_fields l offsite_rewrite offsite_index
          app_save_index(1)[OF d] h)
  qed
  show ?thesis
    unfolding run_unfold[OF offsite_seed a m f w0 w sv]
    by (simp add: site_seed_fields demo_seed_fields(3) l offsite_rewrite offsite_final_def)
qed

lemma offsite_roundtrip: "roundtrip offsite"
  unfolding roundtrip_def
  by (auto simp: offsite_def offsite_URL_def mk_url_def cdn_a_def cdn_b_def cdn_lib_def site_seed_def
      split: if_splits)

section \<open>Facts about the candidates of a srcset\<close>

lemma split_ws_nonempty: "split_ws s \<noteq> []"
  by (induction s rule: split_ws.induct) (auto split: list.splits)

lemma split_ws_all_ws_free: "\<forall>w \<in> set (split_ws s). \<forall>c \<in> set w. \<not> ws c"
proof (induction s rule: split_ws.induct)
  case 1
  then show ?case by simp
next
  case (2 x xs)
  show ?case
  proof (cases "ws x")
    case True
    with 2 show ?thesis by simp
  next
    case False
    obtain y ys where ys: "split_ws xs = y # ys"
      using split_ws_nonempty[of xs] by (cases "split_ws xs") auto
    from 2(2)[OF False] ys have "\<forall>c \<in> set y. \<not> ws c" "\<forall>w \<in> set ys. \<forall>c \<in> set w. \<not> ws c"
      by simp_all
    with False ys show ?thesis by simp
  qed
qed

lemma split_ws_ws_free: "w \<in> set (split_ws s) \<Longrightarrow> c \<in> set w \<Longrightarrow> \<not> ws c"
  using split_ws_all_ws_free by blast

lemma split_ws_all_subset: "\<forall>w \<in> set (split_ws s). set w \<subseteq> set s"
proof (induction s rule: split_ws.induct)
  case 1
  then show ?case by simp
next
  case (2 x xs)
  show ?case
  proof (cases "ws x")
    case True
    from 2(1)[OF True] have "\<forall>w \<in> set (split_ws (dropWhile ws xs)). set w \<subseteq> set xs"
      by (meson set_dropWhileD subset_iff)
    with True show ?thesis by auto
  next
    case False
    obtain y ys where ys: "split_ws xs = y # ys"
      using split_ws_nonempty[of xs] by (cases "split_ws xs") auto
    from 2(2)[OF False] ys have "set y \<subseteq> set xs" "\<forall>w \<in> set ys. set w \<subseteq> set xs"
      by simp_all
    with False ys show ?thesis by auto
  qed
qed

lemma split_ws_subset: "w \<in> set (split_ws s) \<Longrightarrow> set w \<subseteq> set s"
  using split_ws_all_subset by blast

lemma split_ws_single: "\<forall>c \<in> set w. \<not> ws c \<Longrightarrow> split_ws w = [w]"
  by (induction w) auto

lemma split_ws_two:
  "\<forall>c \<in> set X. \<not> ws c \<Longrightarrow> \<forall>c \<in> set d. \<not> ws c \<Longrightarrow> ws sp \<Longrightarrow> split_ws (X @ sp # d) = [X, d]"
proof (induction X)
  case Nil
  then have "dropWhile ws d = d" by (cases d) auto
  with Nil show ?case by (simp add: split_ws_single)
next
  case (Cons a X)
  then show ?case by simp
qed

lemma first_word_nonempty: "s \<noteq> [] \<Longrightarrow> \<not> ws (hd s) \<Longrightarrow> first_word s \<noteq> []"
proof (cases s)
  case Nil
  then show "s \<noteq> [] \<Longrightarrow> ?thesis" by simp
next
  case (Cons a r)
  assume "\<not> ws (hd s)"
  with Cons have a: "\<not> ws a" by simp
  obtain y ys where ys: "split_ws r = y # ys"
    using split_ws_nonempty[of r] by (cases "split_ws r") auto
  with Cons a show ?thesis by (simp add: first_word_def)
qed

lemma trim_subset: "set (trim s) \<subseteq> set s"
proof
  fix x assume "x \<in> set (trim s)"
  then have "x \<in> set (dropWhile ws (rev (dropWhile ws s)))" by (simp add: trim_def)
  then have "x \<in> set (rev (dropWhile ws s))" by (rule set_dropWhileD)
  then have "x \<in> set (dropWhile ws s)" by simp
  then show "x \<in> set s" by (rule set_dropWhileD)
qed

lemma trim_tidy_ends: "trim s \<noteq> [] \<Longrightarrow> \<not> ws (hd (trim s)) \<and> \<not> ws (last (trim s))"
proof -
  assume ne: "trim s \<noteq> []"
  let ?a = "dropWhile ws s"
  let ?b = "dropWhile ws (rev ?a)"
  have t: "trim s = rev ?b" by (simp add: trim_def)
  from ne t have b: "?b \<noteq> []" by simp
  then have hb: "\<not> ws (hd ?b)" by (rule hd_dropWhile)
  have l: "last (trim s) = hd ?b" using b by (simp add: t last_rev)
  have a: "?a \<noteq> []"
  proof
    assume e: "?a = []"
    have "?b = dropWhile ws (rev [])" by (simp only: e)
    with b show False by simp
  qed
  then have ha: "\<not> ws (hd ?a)" by (rule hd_dropWhile)
  have "\<exists>xs. rev ?a = xs @ ?b"
    by (metis takeWhile_dropWhile_id)
  then obtain xs where "rev ?a = xs @ ?b" ..
  then have "?a = rev ?b @ rev xs" by (metis rev_append rev_rev_ident)
  with b have "hd ?a = hd (rev ?b)" by (metis hd_append2 rev_is_Nil_conv)
  with ha have "\<not> ws (hd (trim s))" by (simp add: t)
  with hb l show ?thesis by simp
qed

lemma trim_id: "s \<noteq> [] \<Longrightarrow> \<not> ws (hd s) \<Longrightarrow> \<not> ws (last s) \<Longrightarrow> trim s = s"
proof -
  assume ne: "s \<noteq> []" and h: "\<not> ws (hd s)" and l: "\<not> ws (last s)"
  from ne h have a: "dropWhile ws s = s" by (cases s) auto
  from ne l have "\<not> ws (hd (rev s))" by (simp add: hd_rev)
  with ne have "dropWhile ws (rev s) = rev s" by (cases "rev s") auto
  with a show ?thesis by (simp add: trim_def)
qed

lemma trim_space: "ws sp \<Longrightarrow> trim (sp # s) = trim s"
  by (simp add: trim_def)

lemma pieces_tidy: "e \<in> set (srcset_pieces val) \<Longrightarrow> tidy e"
proof -
  assume "e \<in> set (srcset_pieces val)"
  then obtain p where p: "p \<in> set (split_on CHR '','' val)" and e: "e = trim p" and ne: "e \<noteq> []"
    by (auto simp: srcset_pieces_def)
  from p have "CHR '','' \<notin> set p" by (rule split_on_free)
  with trim_subset[of p] e have "CHR '','' \<notin> set e" by auto
  with trim_tidy_ends[of p] e ne show ?thesis by (simp add: tidy_def)
qed

lemma pieces_append:
  "srcset_pieces (a @ CHR '','' # r) = srcset_pieces a @ srcset_pieces r"
  by (simp add: srcset_pieces_def split_on_concat)

lemma pieces_space: "ws sp \<Longrightarrow> srcset_pieces (sp # s) = srcset_pieces s"
proof -
  assume sp: "ws sp"
  then have "sp \<noteq> CHR '',''" by (auto simp: ws_def)
  obtain y ys where ys: "split_on CHR '','' s = y # ys"
    using split_on_nonempty[of "CHR '',''" s] by (cases "split_on CHR '','' s") auto
  with \<open>sp \<noteq> CHR '',''\<close> sp show ?thesis by (simp add: srcset_pieces_def trim_space)
qed

lemma pieces_one: "tidy e \<Longrightarrow> srcset_pieces e = [e]"
  by (simp add: srcset_pieces_def tidy_def split_on_single trim_id)

lemma pieces_join: "\<forall>e \<in> set es. tidy e \<Longrightarrow> srcset_pieces (join_with '', '' es) = es"
proof (induction es)
  case Nil
  show ?case by (simp add: srcset_pieces_def trim_def)
next
  case (Cons e es)
  show ?case
  proof (cases "es = []")
    case True
    with Cons.prems show ?thesis by (simp add: pieces_one)
  next
    case False
    have sp: "ws CHR '' ''" by (simp add: ws_def)
    have "join_with '', '' (e # es) = e @ CHR '','' # CHR '' '' # join_with '', '' es"
      using False by (simp add: join_with_Cons)
    then have "srcset_pieces (join_with '', '' (e # es))
        = srcset_pieces e @ srcset_pieces (join_with '', '' es)"
      by (simp add: pieces_append pieces_space[OF sp])
    with Cons show ?thesis by (simp add: pieces_one)
  qed
qed

lemma written_tidy:
  assumes "X \<noteq> []" "\<forall>c \<in> set X. c \<noteq> CHR '','' \<and> \<not> ws c"
    and "\<forall>c \<in> set d. c \<noteq> CHR '','' \<and> \<not> ws c"
  shows "tidy (X @ (if d \<noteq> [] then '' '' @ d else []))"
proof (cases "d = []")
  case True
  have "hd X \<in> set X" "last X \<in> set X" using assms(1) by simp_all
  with assms(1,2) True show ?thesis by (auto simp: tidy_def)
next
  case False
  have "hd X \<in> set X" using assms(1) by simp
  moreover have "last d \<in> set d" using False by simp
  ultimately show ?thesis
    using assms False by (auto simp: tidy_def hd_append)
qed

lemma written_words:
  assumes "X \<noteq> []" "\<forall>c \<in> set X. \<not> ws c" "\<forall>c \<in> set d. \<not> ws c"
  shows "take 2 (split_ws (X @ (if d \<noteq> [] then '' '' @ d else []))) = (if d \<noteq> [] then [X, d] else [X])"
proof (cases "d = []")
  case True
  with assms show ?thesis by (simp add: split_ws_single)
next
  case False
  have "ws CHR '' ''" by (simp add: ws_def)
  from split_ws_two[OF assms(2,3) this] False show ?thesis by simp
qed

lemma rewrite_entry_written:
  assumes "X \<noteq> []" "\<forall>c \<in> set X. \<not> ws c" "\<forall>c \<in> set d. \<not> ws c"
  shows "rewrite_entry P su m (X @ (if d \<noteq> [] then '' '' @ d else []))
    = (case new_URL P X (Some su) of
         None \<Rightarrow> X @ (if d \<noteq> [] then '' '' @ d else [])
       | Some x \<Rightarrow> (case m (href x) of None \<Rightarrow> X | Some loc \<Rightarrow> if loc \<noteq> [] then loc else X)
                   @ (if d \<noteq> [] then '' '' @ d else []))"
  unfolding rewrite_entry_def Let_def written_words[OF assms]
  by (cases "d = []") (simp_all split: option.splits)

lemma first_word_written:
  assumes "X \<noteq> []" "\<forall>c \<in> set X. \<not> ws c" "\<forall>c \<in> set d. \<not> ws c"
  shows "first_word (X @ (if d \<noteq> [] then '' '' @ d else [])) = X"
proof (cases "d = []")
  case True
  with assms show ?thesis by (simp add: first_word_def split_ws_single)
next
  case False
  have "ws CHR '' ''" by (simp add: ws_def)
  from split_ws_two[OF assms(2,3) this] False show ?thesis by (simp add: first_word_def)
qed

lemma tidy_words:
  assumes "tidy e"
  obtains u d where
    "(case take 2 (split_ws e) of [] \<Rightarrow> [] | w # _ \<Rightarrow> w) = u"
    "(case take 2 (split_ws e) of _ # d # _ \<Rightarrow> d | _ \<Rightarrow> []) = d"
    "u = first_word e" "u \<noteq> []"
    "\<forall>c \<in> set u. c \<noteq> CHR '','' \<and> \<not> ws c" "\<forall>c \<in> set d. c \<noteq> CHR '','' \<and> \<not> ws c"
proof -
  obtain y ys where ys: "split_ws e = y # ys"
    using split_ws_nonempty[of e] by (cases "split_ws e") auto
  have word: "\<forall>c \<in> set w. c \<noteq> CHR '','' \<and> \<not> ws c" if "w \<in> set (split_ws e)" for w
  proof
    fix c assume c: "c \<in> set w"
    with split_ws_subset[OF that] have "c \<in> set e" by blast
    with assms have "c \<noteq> CHR '',''" by (auto simp: tidy_def)
    with split_ws_ws_free[OF that c] show "c \<noteq> CHR '','' \<and> \<not> ws c" by simp
  qed
  have y: "y = first_word e" by (simp add: ys first_word_def)
  have yne: "y \<noteq> []" unfolding y using assms by (intro first_word_nonempty) (auto simp: tidy_def)
  have yp: "\<forall>c \<in> set y. c \<noteq> CHR '','' \<and> \<not> ws c" by (rule word) (simp add: ys)
  show ?thesis
  proof (cases ys)
    case Nil
    show ?thesis
      by (rule that[of y "[]"]) (simp_all add: ys Nil y[symmetric] yne yp)
  next
    case (Cons z zs)
    have zp: "\<forall>c \<in> set z. c \<noteq> CHR '','' \<and> \<not> ws c" by (rule word) (simp add: ys Cons)
    show ?thesis
      by (rule that[of y z]) (simp_all add: ys Cons y[symmetric] yne yp zp)
  qed
qed

lemma rewrite_entry_twice:
  assumes "tidy e" "plain_paths m"
    and "fixed_ref P h su m ''srcset'' (first_word (rewrite_entry P su m e))"
  shows "rewrite_entry P su m (rewrite_entry P su m e) = rewrite_entry P su m e
    \<and> tidy (rewrite_entry P su m e)"
proof -
  from assms(1) obtain u d where
    u: "(case take 2 (split_ws e) of [] \<Rightarrow> [] | w # _ \<Rightarrow> w) = u"
    and d: "(case take 2 (split_ws e) of _ # d # _ \<Rightarrow> d | _ \<Rightarrow> []) = d"
    and une: "u \<noteq> []"
    and up: "\<forall>c \<in> set u. c \<noteq> CHR '','' \<and> \<not> ws c"
    and dp: "\<forall>c \<in> set d. c \<noteq> CHR '','' \<and> \<not> ws c"
    by (rule tidy_words)
  let ?D = "if d \<noteq> [] then '' '' @ d else []"
  have re: "rewrite_entry P su m e
      = (case new_URL P u (Some su) of
           None \<Rightarrow> e
         | Some x \<Rightarrow> (case m (href x) of None \<Rightarrow> u | Some loc \<Rightarrow> if loc \<noteq> [] then loc else u) @ ?D)"
    unfolding rewrite_entry_def Let_def u d by simp
  show ?thesis
  proof (cases "new_URL P u (Some su)")
    case None
    with re have "rewrite_entry P su m e = e" by simp
    with assms(1) show ?thesis by simp
  next
    case (Some x)
    define X where "X = (case m (href x) of None \<Rightarrow> u | Some loc \<Rightarrow> if loc \<noteq> [] then loc else u)"
    have e1: "rewrite_entry P su m e = X @ ?D" using re Some by (simp add: X_def)
    have Xne: "X \<noteq> []" using une by (auto simp: X_def split: option.splits)
    have Xp: "\<forall>c \<in> set X. c \<noteq> CHR '','' \<and> \<not> ws c"
      using up assms(2) by (auto simp: X_def plain_paths_def split: option.splits)
    then have Xw: "\<forall>c \<in> set X. \<not> ws c" by simp
    from dp have dw: "\<forall>c \<in> set d. \<not> ws c" by simp
    have t: "tidy (X @ ?D)" by (rule written_tidy[OF Xne Xp dp])
    have fw: "first_word (X @ ?D) = X" by (rule first_word_written[OF Xne Xw dw])
    from assms(3) have fx: "fixed_ref P h su m ''srcset'' X" by (simp add: e1 fw)
    have "rewrite_entry P su m (X @ ?D) = X @ ?D"
      unfolding rewrite_entry_written[OF Xne Xw dw]
      using fx by (auto simp: fixed_ref_def split: option.splits)
    with t e1 show ?thesis by simp
  qed
qed

lemma rewrite_srcset_twice:
  assumes "plain_paths m"
    and "\<forall>r \<in> set (map first_word (srcset_pieces (rewrite_srcset P su m val))).
           fixed_ref P h su m ''srcset'' r"
  shows "rewrite_srcset P su m (rewrite_srcset P su m val) = rewrite_srcset P su m val"
proof -
  let ?es = "map (rewrite_entry P su m) (srcset_pieces val)"
  have tidy_in: "\<forall>e \<in> set (srcset_pieces val). tidy e" using pieces_tidy by blast
  have w: "\<forall>e \<in> set ?es. tidy e"
  proof
    fix e' assume "e' \<in> set ?es"
    then obtain e where e: "e \<in> set (srcset_pieces val)" "e' = rewrite_entry P su m e" by auto
    let ?u = "case take 2 (split_ws e) of [] \<Rightarrow> [] | w # _ \<Rightarrow> w"
    from e(1) have te: "tidy e" by (rule pieces_tidy)
    then obtain u d where
      u: "(case take 2 (split_ws e) of [] \<Rightarrow> [] | w # _ \<Rightarrow> w) = u"
      and d: "(case take 2 (split_ws e) of _ # d # _ \<Rightarrow> d | _ \<Rightarrow> []) = d"
      and une: "u \<noteq> []"
      and up: "\<forall>c \<in> set u. c \<noteq> CHR '','' \<and> \<not> ws c"
      and dp: "\<forall>c \<in> set d. c \<noteq> CHR '','' \<and> \<not> ws c"
      by (rule tidy_words)
    show "tidy e'"
    proof (cases "new_URL P u (Some su)")
      case None
      then have "e' = e" unfolding e(2) rewrite_entry_def Let_def u d by simp
      with te show ?thesis by simp
    next
      case (Some x)
      define X where "X = (case m (href x) of None \<Rightarrow> u | Some loc \<Rightarrow> if loc \<noteq> [] then loc else u)"
      have e1: "e' = X @ (if d \<noteq> [] then '' '' @ d else [])"
        unfolding e(2) rewrite_entry_def Let_def u d using Some by (simp add: X_def)
      have Xne: "X \<noteq> []" using une by (auto simp: X_def split: option.splits)
      have Xp: "\<forall>c \<in> set X. c \<noteq> CHR '','' \<and> \<not> ws c"
        using up assms(1) by (auto simp: X_def plain_paths_def split: option.splits)
      show ?thesis unfolding e1 by (rule written_tidy[OF Xne Xp dp])
    qed
  qed
  have p: "srcset_pieces (join_with '', '' ?es) = ?es" by (rule pieces_join[OF w])
  have idem: "map (rewrite_entry P su m) ?es = ?es"
  proof (rule map_idI)
    fix e' assume in_es: "e' \<in> set ?es"
    then obtain e where e: "e \<in> set (srcset_pieces val)" "e' = rewrite_entry P su m e" by auto
    from e(1) have te: "tidy e" by (rule pieces_tidy)
    have "srcset_pieces (rewrite_srcset P su m val) = ?es" by (simp add: rewrite_srcset_def p)
    with in_es have "first_word e' \<in> set (map first_word (srcset_pieces (rewrite_srcset P su m val)))"
      by auto
    with assms(2) have "fixed_ref P h su m ''srcset'' (first_word e')" by blast
    from rewrite_entry_twice[OF te assms(1) this[unfolded e(2)]] e(2)
    show "rewrite_entry P su m e' = e'" by simp
  qed
  show ?thesis unfolding rewrite_srcset_def p idem ..
qed

section \<open>Facts about a second rewrite pass\<close>

lemma rewrite_element_fold: "rewrite_element P h su m el = foldl (pass_on P h su m) el assetAttrs"
  unfolding rewrite_element_def pass_on_def ..

lemma rewrite_el_tag: "tag (rewrite_el P h su m attr el) = tag el"
  by (simp add: rewrite_el_def split: option.splits)

lemma rewrite_el_present:
  "(map_of (attrs (rewrite_el P h su m attr el)) k = None) = (map_of (attrs el) k = None)"
proof (cases "k = attr")
  case False
  then show ?thesis by (simp add: rewrite_el_other)
next
  case True
  show ?thesis
  proof (cases "map_of (attrs el) attr")
    case None
    with True show ?thesis by (simp add: rewrite_el_def)
  next
    case (Some val)
    with True show ?thesis
      by (cases "rewrite_plain P h su m val") (simp_all add: rewrite_el_def map_of_attr_set)
  qed
qed

lemma pass_on_tag: "tag (pass_on P h su m e sa) = tag e"
  by (cases sa) (simp add: pass_on_def rewrite_el_tag)

lemma pass_on_present:
  "(map_of (attrs (pass_on P h su m e sa)) k = None) = (map_of (attrs e) k = None)"
  by (cases sa) (simp add: pass_on_def rewrite_el_present)

lemma passes_tag: "tag (foldl (pass_on P h su m) e sas) = tag e"
  by (induction sas arbitrary: e) (simp_all add: pass_on_tag)

lemma passes_present:
  "(map_of (attrs (foldl (pass_on P h su m) e sas)) k = None) = (map_of (attrs e) k = None)"
  by (induction sas arbitrary: e) (simp_all add: pass_on_present)

lemma assetAttrs_last:
  "assetAttrs = butlast assetAttrs @ [(AttrPresent ''img'' ''srcset'', ''srcset'')]"
  by (simp add: assetAttrs_def)

lemma assetAttrs_srcset:
  "(sel, ''srcset'') \<in> set assetAttrs \<Longrightarrow> sel = AttrPresent ''img'' ''srcset''"
  by (auto simp: assetAttrs_def)

lemma srcset_after:
  assumes "matches (AttrPresent ''img'' ''srcset'') (rewrite_element P h su m el)"
    and "map_of (attrs (rewrite_element P h su m el)) ''srcset'' = Some v" "v \<noteq> []"
  shows "\<exists>val. v = rewrite_srcset P su m val"
proof -
  let ?e7 = "foldl (pass_on P h su m) el (butlast assetAttrs)"
  let ?last = "(AttrPresent ''img'' ''srcset'', ''srcset'')"
  have re: "rewrite_element P h su m el = pass_on P h su m ?e7 ?last"
    by (subst rewrite_element_fold, subst assetAttrs_last) (simp only: foldl_append foldl.simps)
  from assms(1) have "tag (rewrite_element P h su m el) = ''img''"
    and "map_of (attrs (rewrite_element P h su m el)) ''srcset'' \<noteq> None" by simp_all
  then have m7: "matches (AttrPresent ''img'' ''srcset'') ?e7"
    unfolding re by (simp add: pass_on_tag pass_on_present)
  then obtain val7 where v7: "map_of (attrs ?e7) ''srcset'' = Some val7" by auto
  have el': "rewrite_element P h su m el = rewrite_el P h su m ''srcset'' ?e7"
    unfolding re using m7 by (simp add: pass_on_def)
  show ?thesis
  proof (cases "val7 = []")
    case True
    with v7 el' have "rewrite_element P h su m el = ?e7" by (simp add: rewrite_el_def)
    with assms(2,3) v7 True show ?thesis by simp
  next
    case False
    with v7 el' assms(2) have "v = rewrite_srcset P su m val7"
      by (simp add: rewrite_el_def map_of_attr_set)
    then show ?thesis ..
  qed
qed

lemma rewrite_el_settled:
  assumes "plain_paths m"
    and "el' = rewrite_element P h su m el"
    and "(sel, attr) \<in> set assetAttrs" "matches sel el'"
    and "list_all (fixed_ref P h su m attr) (refs_of attr el')"
  shows "rewrite_el P h su m attr el' = el'"
proof (cases "map_of (attrs el') attr")
  case None
  then show ?thesis by (simp add: rewrite_el_def)
next
  case (Some val)
  show ?thesis
  proof (cases "val = []")
    case True
    with Some show ?thesis by (simp add: rewrite_el_def)
  next
    case False
    show ?thesis
    proof (cases "attr = ''srcset''")
      case plain: False
      from Some False plain assms(5) have fx: "fixed_ref P h su m attr val"
        by (simp add: refs_of_def)
      show ?thesis
      proof (cases "rewrite_plain P h su m val")
        case None
        with Some False plain show ?thesis by (simp add: rewrite_el_def)
      next
        case (Some v)
        with fx plain have "v = val" by (simp add: fixed_ref_def)
        with Some \<open>map_of (attrs el') attr = Some val\<close> False plain show ?thesis
          by (simp add: rewrite_el_def attr_set_same)
      qed
    next
      case True
      with assms(3) have sel: "sel = AttrPresent ''img'' ''srcset''" by (simp add: assetAttrs_srcset)
      from srcset_after[of P h su m el val] assms(2,4) Some False True sel
      obtain val0 where v0: "val = rewrite_srcset P su m val0" by auto
      from Some False True assms(5) have
        "\<forall>r \<in> set (map first_word (srcset_pieces (rewrite_srcset P su m val0))).
           fixed_ref P h su m ''srcset'' r"
        by (simp add: refs_of_def v0 list_all_iff)
      from rewrite_srcset_twice[OF assms(1) this] have "rewrite_srcset P su m val = val"
        by (simp add: v0)
      with Some False True show ?thesis by (simp add: rewrite_el_def attr_set_same)
    qed
  qed
qed

lemma second_pass_settled:
  assumes "plain_paths m" "settled P h su m (rewrite P h su m doc)"
  shows "rewrite P h su m (rewrite P h su m doc) = rewrite P h su m doc"
proof -
  let ?d1 = "rewrite P h su m doc"
  have pass: "rewrite_pass P h su m ?d1 sa = ?d1" if "sa \<in> set assetAttrs" for sa
  proof -
    obtain sel attr where sa: "sa = (sel, attr)" by (cases sa)
    have "(if matches sel el' then rewrite_el P h su m attr el' else el') = el'"
      if "el' \<in> set ?d1" for el'
    proof (cases "matches sel el'")
      case False
      then show ?thesis by simp
    next
      case True
      from that obtain el where el: "el' = rewrite_element P h su m el"
        by (auto simp: rewrite_is_map)
      from assms(2) that have "\<forall>sa \<in> set assetAttrs. case sa of (selector, attr) \<Rightarrow>
          \<not> matches selector el' \<or> list_all (fixed_ref P h su m attr) (refs_of attr el')"
        unfolding settled_def list_all_iff by blast
      with \<open>sa \<in> set assetAttrs\<close> have
        "\<not> matches sel el' \<or> list_all (fixed_ref P h su m attr) (refs_of attr el')"
        unfolding sa by blast
      with True have "list_all (fixed_ref P h su m attr) (refs_of attr el')" by simp
      from rewrite_el_settled[OF assms(1) el _ True this] \<open>sa \<in> set assetAttrs\<close> True
      show ?thesis by (simp add: sa)
    qed
    then show ?thesis by (simp add: rewrite_pass_def sa map_idI)
  qed
  have "foldl (rewrite_pass P h su m) ?d1 sas = ?d1" if "set sas \<subseteq> set assetAttrs" for sas
    using that by (induction sas) (simp_all add: pass)
  from this[of assetAttrs] show ?thesis by (simp add: rewrite_def)
qed

lemma rewrite_plain_written:
  assumes "stable P h su m" "rewrite_plain P h su m val = Some w"
  shows "a \<noteq> ''srcset'' \<Longrightarrow> fixed_ref P h su m a w"
proof -
  assume a: "a \<noteq> ''srcset''"
  from assms(2) obtain x loc where
    x: "new_URL P val (Some su) = Some x" and loc: "m (href x) = Some loc" "loc \<noteq> []"
    and w: "w = written_plain P h loc"
    by (auto simp: rewrite_plain_def written_plain_def split: option.splits if_splits)
  show ?thesis
  proof (cases "new_URL P w (Some su)")
    case None
    with a show ?thesis by (simp add: fixed_ref_def rewrite_plain_def)
  next
    case (Some x')
    show ?thesis
    proof (cases "m (href x')")
      case None
      with Some a show ?thesis by (simp add: fixed_ref_def rewrite_plain_def)
    next
      case some: (Some loc')
      show ?thesis
      proof (cases "loc' = []")
        case True
        with Some some a show ?thesis by (simp add: fixed_ref_def rewrite_plain_def)
      next
        case False
        from assms(1) loc some False Some[unfolded w]
        have "written_plain P h loc' = written_plain P h loc"
          unfolding stable_def by blast
        with Some some False w a show ?thesis
          by (simp add: fixed_ref_def rewrite_plain_def written_plain_def)
      qed
    qed
  qed
qed

lemma rewrite_el_fixes:
  assumes "stable P h su m" "a \<noteq> ''srcset''"
  shows "list_all (fixed_ref P h su m a) (refs_of a (rewrite_el P h su m a e))"
proof (cases "map_of (attrs e) a")
  case None
  then show ?thesis by (simp add: rewrite_el_def refs_of_def)
next
  case (Some val)
  show ?thesis
  proof (cases "val = []")
    case True
    with Some show ?thesis by (simp add: rewrite_el_def refs_of_def)
  next
    case False
    show ?thesis
    proof (cases "rewrite_plain P h su m val")
      case None
      with Some False assms(2) show ?thesis
        by (simp add: rewrite_el_def refs_of_def fixed_ref_def)
    next
      case w: (Some w)
      have "fixed_ref P h su m a w" by (rule rewrite_plain_written[OF assms(1) w assms(2)])
      with Some False w assms(2) show ?thesis
        by (simp add: rewrite_el_def refs_of_def map_of_attr_set)
    qed
  qed
qed

lemma refs_of_other:
  "a \<noteq> a' \<Longrightarrow> refs_of a (rewrite_el P h su m a' e) = refs_of a e"
  by (simp add: refs_of_def rewrite_el_other)

lemma pass_on_keeps_fixed:
  assumes "stable P h su m" "a \<noteq> ''srcset''"
    and "list_all (fixed_ref P h su m a) (refs_of a e)"
  shows "list_all (fixed_ref P h su m a) (refs_of a (pass_on P h su m e sa))"
proof -
  obtain sel a' where sa: "sa = (sel, a')" by (cases sa)
  show ?thesis
  proof (cases "matches sel e")
    case False
    with assms(3) show ?thesis by (simp add: sa pass_on_def)
  next
    case True
    show ?thesis
    proof (cases "a' = a")
      case same: True
      from rewrite_el_fixes[OF assms(1,2), of e] True same show ?thesis
        by (simp add: sa pass_on_def)
    next
      case False
      then have "a \<noteq> a'" by simp
      from refs_of_other[OF this] assms(3) True show ?thesis
        by (simp add: sa pass_on_def)
    qed
  qed
qed

lemma passes_keep_fixed:
  assumes "stable P h su m" "a \<noteq> ''srcset''"
  shows "list_all (fixed_ref P h su m a) (refs_of a e) \<Longrightarrow>
         list_all (fixed_ref P h su m a) (refs_of a (foldl (pass_on P h su m) e sas))"
proof (induction sas arbitrary: e)
  case Nil
  then show ?case by simp
next
  case (Cons sa sas)
  from pass_on_keeps_fixed[OF assms Cons.prems, of sa] Cons.IH show ?case by simp
qed

lemma pass_on_other:
  "snd sa \<noteq> k \<Longrightarrow> map_of (attrs (pass_on P h su m e sa)) k = map_of (attrs e) k"
  by (cases sa) (auto simp: pass_on_def rewrite_el_other)

lemma matches_pass_on:
  assumes "(sel, a) \<in> set assetAttrs" "sa \<in> set assetAttrs"
  shows "matches sel (pass_on P h su m e sa) = matches sel e"
proof -
  have rel: "map_of (attrs (pass_on P h su m e sa)) ''rel'' = map_of (attrs e) ''rel''"
    by (rule pass_on_other) (use assms(2) in \<open>auto simp: assetAttrs_def\<close>)
  from assms(1) consider "sel = AttrIs ''link'' ''rel'' ''stylesheet''"
    | "sel = AttrHasWord ''link'' ''rel'' ''icon''" | t k where "sel = AttrPresent t k"
    by (auto simp: assetAttrs_def)
  then show ?thesis
  proof cases
    case 1
    then show ?thesis by (simp add: pass_on_tag rel)
  next
    case 2
    then show ?thesis by (simp add: pass_on_tag rel)
  next
    case 3
    then show ?thesis by (simp add: pass_on_tag pass_on_present)
  qed
qed

lemma matches_passes:
  assumes "(sel, a) \<in> set assetAttrs"
  shows "set sas \<subseteq> set assetAttrs \<Longrightarrow>
         matches sel (foldl (pass_on P h su m) e sas) = matches sel e"
proof (induction sas arbitrary: e)
  case Nil
  then show ?case by simp
next
  case (Cons sa sas)
  then show ?case by (simp add: matches_pass_on[OF assms])
qed

lemma passes_fix:
  assumes "stable P h su m" "a \<noteq> ''srcset''" "(sel, a) \<in> set assetAttrs"
  shows "(sel, a) \<in> set sas \<Longrightarrow> set sas \<subseteq> set assetAttrs \<Longrightarrow> matches sel e \<Longrightarrow>
         list_all (fixed_ref P h su m a) (refs_of a (foldl (pass_on P h su m) e sas))"
proof (induction sas arbitrary: e)
  case Nil
  then show ?case by simp
next
  case (Cons sa sas)
  show ?case
  proof (cases "sa = (sel, a)")
    case True
    with Cons.prems(3) have "pass_on P h su m e sa = rewrite_el P h su m a e"
      by (simp add: pass_on_def)
    with rewrite_el_fixes[OF assms(1,2), of e]
    have "list_all (fixed_ref P h su m a) (refs_of a (pass_on P h su m e sa))" by simp
    from passes_keep_fixed[OF assms(1,2) this] show ?thesis by simp
  next
    case False
    with Cons.prems(1) have in_rest: "(sel, a) \<in> set sas" by simp
    from Cons.prems(2) have sub: "set sas \<subseteq> set assetAttrs" and sa: "sa \<in> set assetAttrs" by simp_all
    have "matches sel (pass_on P h su m e sa)"
      using matches_pass_on[OF assms(3) sa] Cons.prems(3) by simp
    from Cons.IH[OF in_rest sub this] show ?thesis by simp
  qed
qed

lemma pieces_rewritten:
  assumes "plain_paths m"
  shows "srcset_pieces (rewrite_srcset P su m val) = map (rewrite_entry P su m) (srcset_pieces val)"
proof -
  let ?es = "map (rewrite_entry P su m) (srcset_pieces val)"
  have "\<forall>e \<in> set ?es. tidy e"
  proof
    fix e' assume "e' \<in> set ?es"
    then obtain e where e: "e \<in> set (srcset_pieces val)" "e' = rewrite_entry P su m e" by auto
    from e(1) have te: "tidy e" by (rule pieces_tidy)
    then obtain u d where
      u: "(case take 2 (split_ws e) of [] \<Rightarrow> [] | w # _ \<Rightarrow> w) = u"
      and d: "(case take 2 (split_ws e) of _ # d # _ \<Rightarrow> d | _ \<Rightarrow> []) = d"
      and une: "u \<noteq> []"
      and up: "\<forall>c \<in> set u. c \<noteq> CHR '','' \<and> \<not> ws c"
      and dp: "\<forall>c \<in> set d. c \<noteq> CHR '','' \<and> \<not> ws c"
      by (rule tidy_words)
    show "tidy e'"
    proof (cases "new_URL P u (Some su)")
      case None
      then have "e' = e" unfolding e(2) rewrite_entry_def Let_def u d by simp
      with te show ?thesis by simp
    next
      case (Some x)
      define X where "X = (case m (href x) of None \<Rightarrow> u | Some loc \<Rightarrow> if loc \<noteq> [] then loc else u)"
      have e1: "e' = X @ (if d \<noteq> [] then '' '' @ d else [])"
        unfolding e(2) rewrite_entry_def Let_def u d using Some by (simp add: X_def)
      have Xne: "X \<noteq> []" using une by (auto simp: X_def split: option.splits)
      have Xp: "\<forall>c \<in> set X. c \<noteq> CHR '','' \<and> \<not> ws c"
        using up assms by (auto simp: X_def plain_paths_def split: option.splits)
      show ?thesis unfolding e1 by (rule written_tidy[OF Xne Xp dp])
    qed
  qed
  then show ?thesis unfolding rewrite_srcset_def by (rule pieces_join)
qed

lemma rewrite_entry_fixed:
  assumes "plain_paths m" "stable P h su m" "tidy e"
  shows "fixed_ref P h su m ''srcset'' (first_word (rewrite_entry P su m e))"
proof -
  from assms(3) obtain u d where
    u: "(case take 2 (split_ws e) of [] \<Rightarrow> [] | w # _ \<Rightarrow> w) = u"
    and d: "(case take 2 (split_ws e) of _ # d # _ \<Rightarrow> d | _ \<Rightarrow> []) = d"
    and fw: "u = first_word e"
    and une: "u \<noteq> []"
    and up: "\<forall>c \<in> set u. c \<noteq> CHR '','' \<and> \<not> ws c"
    and dp: "\<forall>c \<in> set d. c \<noteq> CHR '','' \<and> \<not> ws c"
    by (rule tidy_words)
  let ?D = "if d \<noteq> [] then '' '' @ d else []"
  show ?thesis
  proof (cases "new_URL P u (Some su)")
    case None
    then have "rewrite_entry P su m e = e" unfolding rewrite_entry_def Let_def u d by simp
    with None fw show ?thesis by (simp add: fixed_ref_def)
  next
    case (Some x)
    define X where "X = (case m (href x) of None \<Rightarrow> u | Some loc \<Rightarrow> if loc \<noteq> [] then loc else u)"
    have e1: "rewrite_entry P su m e = X @ ?D"
      unfolding rewrite_entry_def Let_def u d using Some by (simp add: X_def)
    have Xne: "X \<noteq> []" using une by (auto simp: X_def split: option.splits)
    have Xw: "\<forall>c \<in> set X. \<not> ws c"
      using up assms(1) by (auto simp: X_def plain_paths_def split: option.splits)
    from dp have dw: "\<forall>c \<in> set d. \<not> ws c" by simp
    have f: "first_word (rewrite_entry P su m e) = X"
      unfolding e1 by (rule first_word_written[OF Xne Xw dw])
    have "fixed_ref P h su m ''srcset'' X"
    proof (cases "m (href x)")
      case None
      with Some show ?thesis by (simp add: X_def fixed_ref_def)
    next
      case loc: (Some loc)
      show ?thesis
      proof (cases "loc = []")
        case True
        with Some loc show ?thesis by (simp add: X_def fixed_ref_def)
      next
        case False
        with loc have X: "X = loc" by (simp add: X_def)
        have "loc' = [] \<or> loc' = loc"
          if "new_URL P loc (Some su) = Some x'" "m (href x') = Some loc'" for x' loc'
          using assms(2) loc False that unfolding stable_def by blast
        then show ?thesis
          unfolding X by (auto simp: fixed_ref_def split: option.splits)
      qed
    qed
    with f show ?thesis by simp
  qed
qed

lemma first_pass_settled:
  assumes "plain_paths m" "stable P h su m"
  shows "settled P h su m (rewrite P h su m doc)"
proof -
  have "list_all (fixed_ref P h su m attr) (refs_of attr (rewrite_element P h su m el))"
    if sa: "(sel, attr) \<in> set assetAttrs" and ma: "matches sel (rewrite_element P h su m el)"
    for sel attr el
  proof (cases "attr = ''srcset''")
    case False
    from ma have "matches sel el"
      unfolding rewrite_element_fold using matches_passes[OF sa, of assetAttrs] by simp
    from passes_fix[OF assms(2) False sa sa _ this] show ?thesis
      by (simp add: rewrite_element_fold)
  next
    case True
    with sa have sel: "sel = AttrPresent ''img'' ''srcset''" by (simp add: assetAttrs_srcset)
    show ?thesis
    proof (cases "map_of (attrs (rewrite_element P h su m el)) ''srcset''")
      case None
      with True show ?thesis by (simp add: refs_of_def)
    next
      case (Some v)
      show ?thesis
      proof (cases "v = []")
        case empty: True
        with Some True show ?thesis by (simp add: refs_of_def)
      next
        case False
        from srcset_after[OF ma[unfolded sel] Some False]
        obtain val where v: "v = rewrite_srcset P su m val" ..
        have "fixed_ref P h su m ''srcset'' (first_word e')"
          if "e' \<in> set (srcset_pieces v)" for e'
        proof -
          from that obtain e where e: "e \<in> set (srcset_pieces val)" "e' = rewrite_entry P su m e"
            unfolding v pieces_rewritten[OF assms(1)] by auto
          from rewrite_entry_fixed[OF assms pieces_tidy[OF e(1)]] e(2) show ?thesis by simp
        qed
        with Some False True show ?thesis
          by (simp add: refs_of_def list_all_iff)
      qed
    qed
  qed
  then show ?thesis
    unfolding settled_def list_all_iff rewrite_is_map by auto
qed

section \<open>What the rewrite loop writes for a reference to another origin\<close>

lemma passes_other:
  "\<forall>sa \<in> set sas. snd sa \<noteq> k \<Longrightarrow>
   map_of (attrs (foldl (pass_on P h su m) e sas)) k = map_of (attrs e) k"
  by (induction sas arbitrary: e) (simp_all add: pass_on_other)

lemma rewrite_element_srcset:
  assumes "tag el = ''img''" "map_of (attrs el) ''srcset'' = Some val" "val \<noteq> []"
  shows "map_of (attrs (rewrite_element P h su m el)) ''srcset'' = Some (rewrite_srcset P su m val)"
proof -
  let ?e7 = "foldl (pass_on P h su m) el (butlast assetAttrs)"
  let ?last = "(AttrPresent ''img'' ''srcset'', ''srcset'')"
  have re: "rewrite_element P h su m el = pass_on P h su m ?e7 ?last"
    by (subst rewrite_element_fold, subst assetAttrs_last) (simp only: foldl_append foldl.simps)
  have "\<forall>sa \<in> set (butlast assetAttrs). snd sa \<noteq> ''srcset''"
    by (simp add: assetAttrs_def)
  from passes_other[OF this] assms(2) have v7: "map_of (attrs ?e7) ''srcset'' = Some val" by simp
  have t7: "tag ?e7 = ''img''" using assms(1) by (simp add: passes_tag)
  show ?thesis
    unfolding re using v7 t7 assms(3)
    by (simp add: pass_on_def rewrite_el_def map_of_attr_set)
qed

lemma run_off_origin:
  assumes "run P urlInput = Some (Inr (s, d))"
    and "new_URL P urlInput None = Some parsed"
    and "new_URL P (href parsed) None = Some start"
    and "fetchWithType P 0 (href parsed) = Inr htmlRes"
    and "roundtrip P"
    and "new_URL P ref (Some (href parsed)) = Some x"
    and "origin x \<noteq> origin start"
  shows "href x \<notin> set (requests s) \<and> href x \<notin> set (toDownload s)
    \<and> urlToLocalPath s (href x) = None
    \<and> (\<forall>i a. i < length (page P htmlRes) \<longrightarrow> a \<noteq> ''srcset'' \<longrightarrow>
          map_of (attrs (page P htmlRes ! i)) a = Some ref \<longrightarrow>
          map_of (attrs (d ! i)) a = Some ref)
    \<and> (\<forall>i val. i < length (page P htmlRes) \<longrightarrow> tag (page P htmlRes ! i) = ''img'' \<longrightarrow>
          map_of (attrs (page P htmlRes ! i)) ''srcset'' = Some val \<longrightarrow> val \<noteq> [] \<longrightarrow>
          (\<exists>cs. map_of (attrs (d ! i)) ''srcset'' = Some (join_with '', '' cs)
             \<and> length cs = length (srcset_pieces val)
             \<and> (\<forall>j. j < length cs \<longrightarrow> first_word (srcset_pieces val ! j) = ref \<longrightarrow>
                   cs ! j = ref @ descriptor_suffix (srcset_pieces val ! j))))"
proof -
  let ?doc = "page P htmlRes"
  let ?m = "urlToLocalPath s"
  let ?h = "hostToken (hostname start)"
  have c: "confined P (origin start) (href parsed) s"
    by (rule run_confined[OF assms(1,2,3,5)])
  have no: "\<not> same_origin P (origin start) (href x)"
    by (rule off_origin_not_in_set[OF assms(5,6,7)])
  with c have 1: "href x \<notin> set (toDownload s)" by (auto simp: confined_def)
  have "href x \<noteq> href parsed"
  proof
    assume "href x = href parsed"
    with assms(3) have "same_origin P (origin start) (href x)" by (simp add: same_origin_def)
    with no show False by simp
  qed
  with c 1 have 2: "href x \<notin> set (requests s)" by (auto simp: confined_def)
  from c 1 have 3: "?m (href x) = None" by (auto simp: confined_def)
  from run_page[OF assms(1,2,3)] assms(4) have d: "d = rewrite P ?h (href parsed) ?m ?doc" by simp
  have p: "rewrite_plain P ?h (href parsed) ?m ref = None"
    using assms(6) 3 by (simp add: rewrite_plain_def)
  have 4: "map_of (attrs (d ! i)) a = Some ref"
    if "i < length ?doc" "a \<noteq> ''srcset''" "map_of (attrs (?doc ! i)) a = Some ref" for i a
    using that p by (simp add: d rewrite_is_map rewrite_element_keeps)
  have 5: "\<exists>cs. map_of (attrs (d ! i)) ''srcset'' = Some (join_with '', '' cs)
             \<and> length cs = length (srcset_pieces val)
             \<and> (\<forall>j. j < length cs \<longrightarrow> first_word (srcset_pieces val ! j) = ref \<longrightarrow>
                   cs ! j = ref @ descriptor_suffix (srcset_pieces val ! j))"
    if "i < length ?doc" "tag (?doc ! i) = ''img''"
      "map_of (attrs (?doc ! i)) ''srcset'' = Some val" "val \<noteq> []" for i val
  proof -
    let ?cs = "map (rewrite_entry P (href parsed) ?m) (srcset_pieces val)"
    have "map_of (attrs (d ! i)) ''srcset'' = Some (join_with '', '' ?cs)"
      using that by (simp add: d rewrite_is_map rewrite_element_srcset rewrite_srcset_def)
    moreover have "?cs ! j = ref @ descriptor_suffix (srcset_pieces val ! j)"
      if "j < length ?cs" "first_word (srcset_pieces val ! j) = ref" for j
      using rewrite_entry_unresolved[of P "srcset_pieces val ! j" "href parsed" x ?m] that assms(6) 3
      by simp
    ultimately show ?thesis by (intro exI[of _ ?cs]) simp
  qed
  from 1 2 3 4 5 show ?thesis by blast
qed

section \<open>Responsive-image candidates\<close>

text \<open>
  C1. A candidate of a \<open>srcset\<close> whose URL has a local path should be replaced by that
  path relative to the origin folder, as the other attributes are (\<open>src="a.png"\<close> becomes
  \<open>./img/a.png\<close>). On the small site the run writes the map's value, which starts with the
  host folder: the \<open>srcset\<close> becomes \<open>example_test/img/a.png 1x, b.png 2x\<close>.
\<close>

theorem srcset_candidate_keeps_host_folder:
  "map_option (map_sum id snd) (run demo ''https://example.test/'') =
     Some (Inr [\<lparr>tag = ''img'',
                  attrs = [(''src'', ''./img/a.png''),
                           (''srcset'', ''example_test/img/a.png 1x, b.png 2x'')]\<rparr>])"
  by code_simp

section \<open>Requests of a run\<close>

text \<open>
  C2. No URL should be handed to \<open>fetch\<close> twice in a run. On the small site the request
  for \<open>b.png\<close> fails in the first wave and is made again in the next one.
\<close>

theorem failed_url_is_requested_again:
  "map_option (map_sum id (\<lambda>r. requests (fst r))) (run demo ''https://example.test/'') =
     Some (Inr [''https://example.test/'', ''https://example.test/a.png'',
                ''https://example.test/b.png'', ''https://example.test/b.png''])"
  by code_simp

section \<open>The loop reaches its fixpoint\<close>




section \<open>The same-origin filter\<close>

text \<open>
  C4, as stated: a reference to another origin is never fetched and the attribute that
  holds it keeps its value, also when it is a candidate of a \<open>srcset\<close>. On the page with
  references to \<open>cdn.example\<close> nothing but the seed is requested, but the \<open>srcset\<close> is
  written back with its candidates joined by a comma and a space: its value changes.
\<close>

theorem srcset_with_off_origin_candidates_is_rewritten:
  "run offsite site_seed = Some (Inr (offsite_final, offsite_out))
   \<and> map_option origin (new_URL offsite site_seed None) = Some ''https://example.test''
   \<and> map_option origin (new_URL offsite cdn_a (Some site_seed)) = Some ''https://cdn.example''
   \<and> map_option origin (new_URL offsite cdn_b (Some site_seed)) = Some ''https://cdn.example''
   \<and> requests offsite_final = [site_seed]
   \<and> map_of (attrs (offsite_doc ! 1)) ''srcset''
       = Some ''https://cdn.example/a.png 1x,https://cdn.example/b.png 2x''
   \<and> map_of (attrs (offsite_out ! 1)) ''srcset''
       = Some ''https://cdn.example/a.png 1x, https://cdn.example/b.png 2x''
   \<and> map_of (attrs (offsite_out ! 1)) ''srcset'' \<noteq> map_of (attrs (offsite_doc ! 1)) ''srcset''"
proof -
  have "map_option origin (new_URL offsite site_seed None) = Some ''https://example.test''"
    "map_option origin (new_URL offsite cdn_a (Some site_seed)) = Some ''https://cdn.example''"
    "map_option origin (new_URL offsite cdn_b (Some site_seed)) = Some ''https://cdn.example''"
    by code_simp+
  moreover have "requests offsite_final = [site_seed]" by (simp add: offsite_final_def)
  moreover have "map_of (attrs (offsite_doc ! 1)) ''srcset''
       = Some ''https://cdn.example/a.png 1x,https://cdn.example/b.png 2x''"
    "map_of (attrs (offsite_out ! 1)) ''srcset''
       = Some ''https://cdn.example/a.png 1x, https://cdn.example/b.png 2x''"
    by (simp_all add: offsite_doc_def offsite_out_def offsite_srcset_def)
  ultimately show ?thesis using offsite_run by simp
qed

text \<open>
  C4, amended: in a completed run on a platform whose URL constructor parses a
  serialised URL back to itself, a reference that resolves to another origin than the
  seed's is never requested, never enters the set to download and has no entry in the
  map; an attribute other than \<open>srcset\<close> that holds it has the same value in the rewritten
  page; and the \<open>srcset\<close> of an image is, in the rewritten page, its candidates joined by a
  comma and a space, where every candidate that starts with the reference is written as
  that URL, verbatim, followed by a space and its descriptor when it has one.
\<close>

theorem off_origin_reference_is_neither_fetched_nor_replaced:
  assumes "run P urlInput = Some (Inr (s, d))"
    and "new_URL P urlInput None = Some parsed"
    and "new_URL P (href parsed) None = Some start"
    and "fetchWithType P 0 (href parsed) = Inr htmlRes"
    and "roundtrip P"
    and "new_URL P ref (Some (href parsed)) = Some x"
    and "origin x \<noteq> origin start"
  shows "href x \<notin> set (requests s) \<and> href x \<notin> set (toDownload s)
    \<and> urlToLocalPath s (href x) = None
    \<and> (\<forall>i a. i < length (page P htmlRes) \<longrightarrow> a \<noteq> ''srcset'' \<longrightarrow>
          map_of (attrs (page P htmlRes ! i)) a = Some ref \<longrightarrow>
          map_of (attrs (d ! i)) a = Some ref)
    \<and> (\<forall>i val. i < length (page P htmlRes) \<longrightarrow> tag (page P htmlRes ! i) = ''img'' \<longrightarrow>
          map_of (attrs (page P htmlRes ! i)) ''srcset'' = Some val \<longrightarrow> val \<noteq> [] \<longrightarrow>
          (\<exists>cs. map_of (attrs (d ! i)) ''srcset'' = Some (join_with '', '' cs)
             \<and> length cs = length (srcset_pieces val)
             \<and> (\<forall>j. j < length cs \<longrightarrow> first_word (srcset_pieces val ! j) = ref \<longrightarrow>
                   cs ! j = ref @ descriptor_suffix (srcset_pieces val ! j))))"
  using assms by (rule run_off_origin)

theorem off_origin_reference_is_neither_fetched_nor_replaced_witness:
  "run offsite site_seed = Some (Inr (offsite_final, offsite_out))
   \<and> roundtrip offsite
   \<and> new_URL offsite cdn_lib (Some site_seed) = Some (mk_url ''cdn.example'' ''/lib.js'')
   \<and> origin (mk_url ''cdn.example'' ''/lib.js'') \<noteq> origin (mk_url ''example.test'' ''/'')
   \<and> cdn_lib \<notin> set (requests offsite_final)
   \<and> urlToLocalPath offsite_final cdn_lib = None
   \<and> map_of (attrs (offsite_doc ! 0)) ''src'' = Some cdn_lib
   \<and> map_of (attrs (offsite_out ! 0)) ''src'' = Some cdn_lib
   \<and> new_URL offsite cdn_b (Some site_seed) = Some (mk_url ''cdn.example'' ''/b.png'')
   \<and> origin (mk_url ''cdn.example'' ''/b.png'') \<noteq> origin (mk_url ''example.test'' ''/'')
   \<and> tag (offsite_doc ! 1) = ''img''
   \<and> map_of (attrs (offsite_doc ! 1)) ''srcset'' = Some offsite_srcset
   \<and> srcset_pieces offsite_srcset = [cdn_a @ '' 1x'', cdn_b @ '' 2x'']
   \<and> (\<exists>cs. map_of (attrs (offsite_out ! 1)) ''srcset'' = Some (join_with '', '' cs)
         \<and> length cs = 2 \<and> cs ! 1 = cdn_b @ '' 2x'')"
proof -
  let ?r = "\<lparr>buf = ''<script><img>'', contentType = ''text/html''\<rparr>"
  have a: "new_URL offsite (href (mk_url ''example.test'' ''/'')) None = Some (mk_url ''example.test'' ''/'')"
    by (simp add: site_seed_fields offsite_seed)
  have f: "fetchWithType offsite 0 (href (mk_url ''example.test'' ''/'')) = Inr ?r"
    by (rule offsite_fetch)
  have r: "new_URL offsite cdn_lib (Some (href (mk_url ''example.test'' ''/'')))
      = Some (mk_url ''cdn.example'' ''/lib.js'')"
    by (simp add: site_seed_fields offsite_def offsite_URL_def cdn_lib_def cdn_a_def cdn_b_def site_seed_def)
  have r': "new_URL offsite cdn_lib (Some site_seed) = Some (mk_url ''cdn.example'' ''/lib.js'')"
    using r by (simp add: site_seed_fields)
  have o: "origin (mk_url ''cdn.example'' ''/lib.js'') \<noteq> origin (mk_url ''example.test'' ''/'')"
    by (simp add: mk_url_def)
  have h: "href (mk_url ''cdn.example'' ''/lib.js'') = cdn_lib"
    by (simp add: mk_url_def cdn_lib_def)
  have l: "page offsite r = offsite_doc" for r by (simp add: page_def offsite_def)
  have src: "map_of (attrs (offsite_doc ! 0)) ''src'' = Some cdn_lib" by (simp add: offsite_doc_def)
  from off_origin_reference_is_neither_fetched_nor_replaced
         [OF offsite_run offsite_seed a f offsite_roundtrip r o, unfolded h l site_seed_fields]
  have 1: "cdn_lib \<notin> set (requests offsite_final)"
    and 2: "urlToLocalPath offsite_final cdn_lib = None"
    and 3: "\<forall>i a. i < length offsite_doc \<longrightarrow> a \<noteq> ''srcset'' \<longrightarrow>
          map_of (attrs (offsite_doc ! i)) a = Some cdn_lib \<longrightarrow>
          map_of (attrs (offsite_out ! i)) a = Some cdn_lib"
    by simp_all
  from 3 src have 5: "map_of (attrs (offsite_out ! 0)) ''src'' = Some cdn_lib"
    by (simp add: offsite_doc_def)
  have rb: "new_URL offsite cdn_b (Some (href (mk_url ''example.test'' ''/'')))
      = Some (mk_url ''cdn.example'' ''/b.png'')"
    by (simp add: site_seed_fields offsite_def offsite_URL_def cdn_lib_def cdn_a_def cdn_b_def site_seed_def)
  have rb': "new_URL offsite cdn_b (Some site_seed) = Some (mk_url ''cdn.example'' ''/b.png'')"
    using rb by (simp add: site_seed_fields)
  have ob: "origin (mk_url ''cdn.example'' ''/b.png'') \<noteq> origin (mk_url ''example.test'' ''/'')"
    by (simp add: mk_url_def)
  have tg: "tag (offsite_doc ! 1) = ''img''" by (simp add: offsite_doc_def)
  have ss: "map_of (attrs (offsite_doc ! 1)) ''srcset'' = Some offsite_srcset"
    by (simp add: offsite_doc_def)
  have ne: "offsite_srcset \<noteq> []" by (simp add: offsite_srcset_def)
  have ps: "srcset_pieces offsite_srcset = [cdn_a @ '' 1x'', cdn_b @ '' 2x'']" by code_simp
  have fw: "first_word (cdn_b @ '' 2x'') = cdn_b" by code_simp
  have ds: "descriptor_suffix (cdn_b @ '' 2x'') = '' 2x''" by code_simp
  from off_origin_reference_is_neither_fetched_nor_replaced
         [OF offsite_run offsite_seed a f offsite_roundtrip rb ob, unfolded l site_seed_fields]
  have "\<forall>i val. i < length offsite_doc \<longrightarrow> tag (offsite_doc ! i) = ''img'' \<longrightarrow>
          map_of (attrs (offsite_doc ! i)) ''srcset'' = Some val \<longrightarrow> val \<noteq> [] \<longrightarrow>
          (\<exists>cs. map_of (attrs (offsite_out ! i)) ''srcset'' = Some (join_with '', '' cs)
             \<and> length cs = length (srcset_pieces val)
             \<and> (\<forall>j. j < length cs \<longrightarrow> first_word (srcset_pieces val ! j) = cdn_b \<longrightarrow>
                   cs ! j = cdn_b @ descriptor_suffix (srcset_pieces val ! j)))"
    by simp
  with tg ss ne have "\<exists>cs. map_of (attrs (offsite_out ! 1)) ''srcset'' = Some (join_with '', '' cs)
             \<and> length cs = length (srcset_pieces offsite_srcset)
             \<and> (\<forall>j. j < length cs \<longrightarrow> first_word (srcset_pieces offsite_srcset ! j) = cdn_b \<longrightarrow>
                   cs ! j = cdn_b @ descriptor_suffix (srcset_pieces offsite_srcset ! j))"
    by (simp add: offsite_doc_def)
  then obtain cs where cs: "map_of (attrs (offsite_out ! 1)) ''srcset'' = Some (join_with '', '' cs)"
    "length cs = 2"
    "\<forall>j. j < length cs \<longrightarrow> first_word (srcset_pieces offsite_srcset ! j) = cdn_b \<longrightarrow>
                   cs ! j = cdn_b @ descriptor_suffix (srcset_pieces offsite_srcset ! j)"
    unfolding ps by auto
  from cs(2,3) fw ds have "cs ! 1 = cdn_b @ '' 2x''" by (simp add: ps)
  with cs(1,2) have 6: "\<exists>cs. map_of (attrs (offsite_out ! 1)) ''srcset'' = Some (join_with '', '' cs)
         \<and> length cs = 2 \<and> cs ! 1 = cdn_b @ '' 2x''" by blast
  from offsite_run offsite_roundtrip r' o 1 2 src 5 rb' ob tg ss ps 6 show ?thesis by simp
qed

section \<open>A second rewrite pass\<close>

text \<open>
  C5, as stated: with a fixed map, a second rewrite pass over the output of the first
  yields the same document. On the page with the script \<open>/a/foo\<close> and the style sheet
  \<open>/foo\<close> the first pass writes \<open>./foo\<close> for the script; \<open>./foo\<close> resolves to the URL of the
  style sheet, which is a key of the map, and the second pass writes \<open>./css/foo.css\<close>.
\<close>

theorem second_pass_rewrites_a_rewritten_reference:
  "map_option (map_sum id (\<lambda>r. (snd r, rewrite twins demo_host site_seed (urlToLocalPath (fst r)) (snd r))))
     (run twins site_seed)
     = Some (Inr (twins_once, twins_twice))
   \<and> twins_twice \<noteq> twins_once"
  by code_simp

text \<open>
  C5, amended: with a fixed map whose local paths hold neither comma nor white space, a
  second rewrite pass yields the output of the first pass unchanged, for every document
  and every attribute including \<open>srcset\<close>, provided the written references of the map
  lead nowhere else: whenever the reference written for an entry of the map resolves,
  against the start URL, to a key of the map, that key's entry is written the same way.
\<close>

theorem second_pass_changes_nothing_for_a_stable_map:
  assumes "plain_paths m"
    and "stable P h su m"
  shows "rewrite P h su m (rewrite P h su m doc) = rewrite P h su m doc"
  using assms(1) first_pass_settled[OF assms] by (rule second_pass_settled)

theorem second_pass_changes_nothing_for_a_stable_map_witness:
  "plain_paths mirror_map
   \<and> rewrite mirror demo_host site_seed mirror_map mirror_doc = mirror_out
   \<and> written_plain mirror demo_host ''example_test/img/a.png'' = ''./img/a.png''
   \<and> map_option href (new_URL mirror ''./img/a.png'' (Some site_seed))
       = Some ''https://example.test/img/a.png''
   \<and> map_option href (new_URL mirror ''example_test/img/a.png'' (Some site_seed))
       = Some ''https://example.test/example_test/img/a.png''
   \<and> mirror_map ''https://example.test/example_test/img/a.png'' = None
   \<and> rewrite mirror demo_host site_seed mirror_map mirror_out = mirror_out"
proof -
  have p: "plain_paths mirror_map"
    by (auto simp: plain_paths_def mirror_map_def ws_def split: if_splits)
  have r: "rewrite mirror demo_host site_seed mirror_map mirror_doc = mirror_out"
    by code_simp
  have w: "written_plain mirror demo_host ''example_test/img/a.png'' = ''./img/a.png''"
    by code_simp
  have u1: "map_option href (new_URL mirror ''./img/a.png'' (Some site_seed))
       = Some ''https://example.test/img/a.png''"
    and u2: "map_option href (new_URL mirror ''example_test/img/a.png'' (Some site_seed))
       = Some ''https://example.test/example_test/img/a.png''"
    by code_simp+
  have n: "mirror_map ''https://example.test/example_test/img/a.png'' = None"
    by (simp add: mirror_map_def)
  have s: "stable mirror demo_host site_seed mirror_map"
    unfolding stable_def
  proof (intro allI impI)
    fix u loc loc' and x :: url
    assume a: "mirror_map u = Some loc" "mirror_map (href x) = Some loc'"
    then have l: "loc = ''example_test/img/a.png''" "loc' = ''example_test/img/a.png''"
      and hx: "href x = ''https://example.test/img/a.png''"
      by (auto simp: mirror_map_def split: if_splits)
    have "new_URL mirror ''example_test/img/a.png'' (Some site_seed) \<noteq> Some x"
    proof
      assume "new_URL mirror ''example_test/img/a.png'' (Some site_seed) = Some x"
      with u2 hx show False by simp
    qed
    with l show "(new_URL mirror (written_plain mirror demo_host loc) (Some site_seed) = Some x \<longrightarrow>
           written_plain mirror demo_host loc' = written_plain mirror demo_host loc)
        \<and> (new_URL mirror loc (Some site_seed) = Some x \<longrightarrow> loc' = loc)"
      by simp
  qed
  from second_pass_changes_nothing_for_a_stable_map[OF p s, of mirror_doc] r
  have "rewrite mirror demo_host site_seed mirror_map mirror_out = mirror_out" by simp
  with p r w u1 u2 n show ?thesis by simp
qed

section \<open>Fatal and recoverable failures\<close>

text \<open>
  C6. A failed fetch of an asset should be caught, warned about, and leave the URL without
  an entry in the map for the rest of the run. On the server that fails once, the request
  for \<open>b.png\<close> in the first wave fails and is warned about; the loop hands the URL to
  \<open>downloadOne\<close> again, the second request succeeds, and the run ends with an entry for
  \<open>b.png\<close> in the map and its local path in the page.
\<close>

theorem failed_asset_gets_an_entry_in_a_later_wave:
  "fetchWithType flaky 2 url_b = Inl (HttpError 503 url_b)
   \<and> map_option (map_sum id (\<lambda>r. (requests (fst r), warnings (fst r), urlToLocalPath (fst r) url_b, snd r)))
        (run flaky ''https://example.test/'')
     = Some (Inr ([''https://example.test/'', ''https://example.test/a.png'',
                   ''https://example.test/b.png'', ''https://example.test/b.png''],
                  [''https://example.test/b.png''],
                  Some ''example_test/img/b.png'',
                  [\<lparr>tag = ''img'',
                    attrs = [(''src'', ''./img/a.png''),
                             (''srcset'', ''example_test/img/a.png 1x, example_test/img/b.png 2x'')]\<rparr>]))"
  by code_simp

section \<open>The Path Mapper against its reference definition\<close>


text \<open>
  Two more inputs on which the code and the reference definition part. For a path that
  names a directory the code takes the segment before the last slash, the reference
  definition the empty last segment; and in a content type that mentions \<open>image/\<close> the code
  takes what follows the first slash of the header.
\<close>

lemma localPathFor_directory_path:
  "localPathFor paths ''example_test'' ''https://example.test/fonts/'' ''text/html''
     = Inr ''example_test/fonts.html''
   \<and> spec_deriveLocalPath ''example_test'' ''/fonts/'' ''text/html'' = ''example_test/index.html''"
  by code_simp

lemma localPathFor_type_parameter:
  "localPathFor paths ''example_test'' ''https://example.test/plain'' ''text/plain; a=image/png''
     = Inr ''example_test/assets/plain.plain''
   \<and> spec_deriveLocalPath ''example_test'' ''/plain'' ''text/plain; a=image/png''
     = ''example_test/img/plain.png''"
  by code_simp



section \<open>Insert-once structures\<close>

text \<open>
  C8. The set of URLs to download and the map of local paths only grow: a download
  step, a wave and the whole loop leave every URL of the set in the set and every entry
  of the map as it was; and a download step for a URL that has an entry returns the
  state it was given (the set, the map, the files and the request log unchanged).
\<close>

theorem pending_set_and_resolved_map_insert_once:
  "(downloadOne P orig h s u = Inr s1 \<longrightarrow>
      set (toDownload s) \<subseteq> set (toDownload s1) \<and> urlToLocalPath s \<subseteq>\<^sub>m urlToLocalPath s1)
   \<and> (downloadAll P orig h us s = Inr s2 \<longrightarrow>
      set (toDownload s) \<subseteq> set (toDownload s2) \<and> urlToLocalPath s \<subseteq>\<^sub>m urlToLocalPath s2)
   \<and> (waves P orig h n s2 = Some (Inr s3) \<longrightarrow>
      set (toDownload s2) \<subseteq> set (toDownload s3) \<and> urlToLocalPath s2 \<subseteq>\<^sub>m urlToLocalPath s3)
   \<and> (urlToLocalPath s1 u \<noteq> None \<longrightarrow> downloadOne P orig h s1 u = Inr s1)"
  using downloadOne_grows[of P orig h s u s1] downloadAll_grows[of P orig h us s s2]
    waves_grows[of P orig h n s2 s3] downloadOne_skip[of s1 u P orig h]
  by blast

theorem pending_set_and_resolved_map_insert_once_witness:
  "downloadOne demo demo_origin demo_host demo_s0 url_a = Inr demo_s1
   \<and> set (toDownload demo_s0) \<subseteq> set (toDownload demo_s1)
   \<and> urlToLocalPath demo_s0 \<subseteq>\<^sub>m urlToLocalPath demo_s1
   \<and> downloadAll demo demo_origin demo_host [url_a, url_b] demo_s0 = Inr demo_s2
   \<and> set (toDownload demo_s0) \<subseteq> set (toDownload demo_s2)
   \<and> urlToLocalPath demo_s0 \<subseteq>\<^sub>m urlToLocalPath demo_s2
   \<and> waves demo demo_origin demo_host 0 demo_s2 = Some (Inr demo_s3)
   \<and> set (toDownload demo_s2) \<subseteq> set (toDownload demo_s3)
   \<and> urlToLocalPath demo_s2 \<subseteq>\<^sub>m urlToLocalPath demo_s3
   \<and> urlToLocalPath demo_s1 url_a \<noteq> None
   \<and> downloadOne demo demo_origin demo_host demo_s1 url_a = Inr demo_s1"
proof -
  have k: "urlToLocalPath demo_s1 url_a \<noteq> None" by (simp add: demo_s1_def)
  from pending_set_and_resolved_map_insert_once
         [of demo demo_origin demo_host demo_s0 url_a demo_s1 "[url_a, url_b]" demo_s2 0 demo_s3]
       demo_step_a demo_wave0 demo_loop k
  show ?thesis by simp
qed

section \<open>The values of the map\<close>



section \<open>The output folder\<close>

text \<open>
  C10. The host token of a run is the host name of the seed with every \<open>.\<close> and \<open>:\<close>
  replaced by \<open>_\<close>. A completed run has saved the rewritten page at
  \<open><script dir>/downloaded/<token>/index.html\<close>, and the local path in its map of every URL
  whose path does not end in a dot segment starts with the token. The platform and the
  seed are as for the values of the map.
\<close>

theorem page_saved_as_index_html_under_host_token:
  assumes "run P urlInput = Some (Inr (s, d))"
    and "new_URL P urlInput None = Some parsed"
    and "new_URL P (href parsed) None = Some start"
    and "hostname start \<noteq> []"
    and "slash \<notin> set (hostname start)"
    and "backslash \<notin> set (hostname start)"
    and "absolute_dir (dirname P)"
    and "token = map (\<lambda>c. if c = CHR ''.'' \<or> c = CHR '':'' then CHR ''_'' else c) (hostname start)"
  shows "disk s (dirname P @ ''/downloaded/'' @ token @ ''/index.html'')
           = Some (File (Text (cheerio_html P d)))
    \<and> (\<exists>htmlRes. fetchWithType P 0 (href parsed) = Inr htmlRes
          \<and> d = rewrite P token (href parsed) (urlToLocalPath s) (page P htmlRes))
    \<and> (\<forall>u p x. urlToLocalPath s u = Some p \<longrightarrow> new_URL P u None = Some x \<longrightarrow>
          basename (pathname x) \<notin> {[dot], [dot, dot]} \<longrightarrow> (\<exists>rest. p = token @ ''/'' @ rest))"
proof -
  have tk: "token = hostToken (hostname start)"
    using assms(8) by (auto simp: hostToken_def dot_def underscore_def)
  have pt: "proper_segment token" unfolding tk by (rule hostToken_proper[OF assms(4,5)])
  have ix: "index_file P token = dirname P @ ''/downloaded/'' @ token @ ''/index.html''"
    using index_file_path[OF assms(7) pt] by (simp add: OUTPUT_BASE_def)
  have "\<exists>rest. p = token @ ''/'' @ rest"
    if "urlToLocalPath s u = Some p" "new_URL P u None = Some x"
      "basename (pathname x) \<notin> {[dot], [dot, dot]}" for u p x
  proof -
    have "host_rooted P token u p"
      unfolding tk by (rule run_map_values[OF assms(1,2,3,4,5,7) that])
    from host_rooted_shape[OF this pt _ that(2,3)] hostToken_no_backslash[OF assms(6)]
    show ?thesis by (simp add: tk)
  qed
  with run_page[OF assms(1,2,3)] ix show ?thesis
    by (simp add: tk)
qed

theorem page_saved_as_index_html_under_host_token_witness:
  "run demo ''https://example.test/'' = Some (Inr (demo_final, demo_out))
   \<and> hostname (mk_url ''example.test'' ''/'') = ''example.test''
   \<and> disk demo_final ''/app/downloaded/example_test/index.html''
       = Some (File (Text (cheerio_html demo demo_out)))
   \<and> urlToLocalPath demo_final url_a = Some ''example_test/img/a.png''
   \<and> new_URL demo url_a None = Some (mk_url ''example.test'' ''/a.png'')
   \<and> basename (pathname (mk_url ''example.test'' ''/a.png'')) = ''a.png''
   \<and> (\<exists>rest. ''example_test/img/a.png'' = ''example_test'' @ ''/'' @ rest)"
proof -
  have t: "''example_test'' = map (\<lambda>c. if c = CHR ''.'' \<or> c = CHR '':'' then CHR ''_'' else c)
             (hostname (mk_url ''example.test'' ''/''))"
    by (simp add: mk_url_def)
  have m: "urlToLocalPath demo_final url_a = Some ''example_test/img/a.png''"
    by (simp add: demo_final_def demo_s3_def demo_s1_def)
  have x: "new_URL demo url_a None = Some (mk_url ''example.test'' ''/a.png'')"
    by (simp add: demo_def demo_URL_def url_a_def)
  have b: "basename (pathname (mk_url ''example.test'' ''/a.png'')) = ''a.png''"
    by code_simp
  then have b': "basename (pathname (mk_url ''example.test'' ''/a.png'')) \<notin> {[dot], [dot, dot]}"
    by (simp add: dot_def)
  have d: "dirname demo = ''/app''" by (simp add: demo_def)
  from page_saved_as_index_html_under_host_token
         [OF demo_run demo_seed demo_seed_again demo_hostname demo_dir t]
  have 1: "disk demo_final ''/app/downloaded/example_test/index.html''
        = Some (File (Text (cheerio_html demo demo_out)))"
    and 2: "\<forall>u p x. urlToLocalPath demo_final u = Some p \<longrightarrow> new_URL demo u None = Some x \<longrightarrow>
          basename (pathname x) \<notin> {[dot], [dot, dot]} \<longrightarrow> (\<exists>rest. p = ''example_test'' @ ''/'' @ rest)"
    by (simp_all add: d)
  from 2 m x b' have "\<exists>rest. ''example_test/img/a.png'' = ''example_test'' @ ''/'' @ rest" by blast
  with 1 m x b demo_run show ?thesis by (simp add: mk_url_def)
qed

end
